theory Spec2Isabelle
  imports Complex_Main
begin

section \<open>Numbers and items\<close>

text \<open>
  The wheel component works on JavaScript numbers. They are modelled as exact reals:
  every statement below is about the arithmetic the code writes down, not about the
  rounding of IEEE doubles. The draws of \<open>Math.random()\<close> and the readings of
  \<open>performance.now()\<close> are parameters of the functions that use them.
\<close>

text \<open>
  \<open>assertValid\<close> inspects its argument at run time, so it is given items whose fields
  may hold any JavaScript value.
\<close>

datatype jsval =
    JString string
  | JNumber real
  | JNaN
  | JPosInf
  | JNegInf
  | JOther

record JsItem =
  jvalue :: jsval
  jweight :: jsval

record WheelItem =
  "value" :: string
  weight :: real

definition toJs :: "WheelItem \<Rightarrow> JsItem" where
  "toJs it = \<lparr>jvalue = JString (value it), jweight = JNumber (weight it)\<rparr>"

section \<open>Validation\<close>

datatype error =
    ItemsEmpty          \<comment> \<open>items must be a non-empty array\<close>
  | ValueNotString      \<comment> \<open>value must be a string\<close>
  | WeightNotFiniteNonneg   \<comment> \<open>weight must be a finite number >= 0\<close>
  | TotalNotPositive    \<comment> \<open>total weight must be > 0\<close>

fun isString :: "jsval \<Rightarrow> bool" where
  "isString (JString s) = True"
| "isString v = False"

text \<open>\<open>typeof w === "number" && Number.isFinite(w) && !(w < 0)\<close>\<close>

fun finiteNonneg :: "jsval \<Rightarrow> bool" where
  "finiteNonneg (JNumber x) = (\<not> x < 0)"
| "finiteNonneg v = False"

text \<open>The number held by a weight; the sum is only formed once every weight passed the loop.\<close>

fun numOf :: "jsval \<Rightarrow> real" where
  "numOf (JNumber x) = x"
| "numOf v = 0"

fun checkItems :: "JsItem list \<Rightarrow> error + unit" where
  "checkItems [] = Inr ()"
| "checkItems (it # rest) =
     (if \<not> isString (jvalue it) then Inl ValueNotString
      else if \<not> finiteNonneg (jweight it) then Inl WeightNotFiniteNonneg
      else checkItems rest)"

definition jsTotal :: "JsItem list \<Rightarrow> real" where
  "jsTotal items = foldl (\<lambda>s it. s + numOf (jweight it)) 0 items"

definition assertValid :: "JsItem list \<Rightarrow> error + unit" where
  "assertValid items =
     (if items = [] then Inl ItemsEmpty
      else case checkItems items of
        Inl e \<Rightarrow> Inl e
      | Inr u \<Rightarrow> if jsTotal items \<le> 0 then Inl TotalNotPositive else Inr ())"

section \<open>Weighted selection\<close>

definition totalWeight :: "WheelItem list \<Rightarrow> real" where
  "totalWeight items = foldl (\<lambda>s it. s + weight it) 0 items"

text \<open>The \<open>for\<close> loop of \<open>weightedPick\<close>; \<open>None\<close> when the walk exhausts the list.\<close>

fun pickLoop :: "real \<Rightarrow> WheelItem list \<Rightarrow> WheelItem option" where
  "pickLoop r [] = None"
| "pickLoop r (it # rest) =
     (let r' = r - weight it in if r' \<le> 0 then Some it else pickLoop r' rest)"

text \<open>
  \<open>weightedPick u items\<close>, with \<open>u\<close> the value of \<open>Math.random()\<close>. The result
  \<open>None\<close> is JavaScript's \<open>undefined\<close>, read from index \<open>-1\<close> of an empty array.
\<close>

definition weightedPick :: "real \<Rightarrow> WheelItem list \<Rightarrow> WheelItem option" where
  "weightedPick u items =
     (let total = totalWeight items;
          r = u * total
      in case pickLoop r items of
           Some it \<Rightarrow> Some it
         | None \<Rightarrow> (if items = [] then None else Some (last items)))"

text \<open>The running remainder once the weights of items \<open>0..i\<close> have been subtracted.\<close>

definition remainder :: "real \<Rightarrow> WheelItem list \<Rightarrow> nat \<Rightarrow> real" where
  "remainder u items i = u * totalWeight items - sum_list (map weight (take (Suc i) items))"

section \<open>Slice layout\<close>

record AngleRange =
  range_start :: real
  range_end :: real

definition keyOf :: "WheelItem \<Rightarrow> string" where
  "keyOf it = value it"

text \<open>The loop of \<open>buildEqualRanges\<close>: \<open>map.set\<close> for the items from index \<open>i\<close> on.\<close>

fun rangesLoop ::
  "real \<Rightarrow> nat \<Rightarrow> WheelItem list \<Rightarrow> (string \<rightharpoonup> AngleRange) \<Rightarrow> (string \<rightharpoonup> AngleRange)" where
  "rangesLoop slice i [] m = m"
| "rangesLoop slice i (it # rest) m =
     rangesLoop slice (i + 1) rest
       (m(keyOf it \<mapsto> \<lparr>range_start = real i * slice, range_end = (real i + 1) * slice\<rparr>))"

definition buildEqualRanges :: "WheelItem list \<Rightarrow> (string \<rightharpoonup> AngleRange)" where
  "buildEqualRanges list =
     (let n = max 1 (length list);
          slice = (pi * 2) / real n
      in rangesLoop slice 0 list Map.empty)"

definition clamp01 :: "real \<Rightarrow> real" where
  "clamp01 x = max 0 (min 1 x)"

definition easeOutQuint :: "real \<Rightarrow> real" where
  "easeOutQuint t = 1 - (1 - t) ^ 5"

definition lerp :: "real \<Rightarrow> real \<Rightarrow> real \<Rightarrow> real" where
  "lerp a b t = a + (b - a) * t"

text \<open>
  The loop of the reflow step over \<open>next\<close> that fills the map \<open>blended\<close>: a key without a
  range in \<open>to\<close> is skipped, a key without a range in \<open>from\<close> takes the range of \<open>to\<close>.
\<close>

fun blendLoop ::
  "(string \<rightharpoonup> AngleRange) \<Rightarrow> (string \<rightharpoonup> AngleRange) \<Rightarrow> real \<Rightarrow> WheelItem list \<Rightarrow>
   (string \<rightharpoonup> AngleRange) \<Rightarrow> (string \<rightharpoonup> AngleRange)" where
  "blendLoop from to eased [] blended = blended"
| "blendLoop from to eased (it # rest) blended =
     (let k = keyOf it in
      case to k of
        None \<Rightarrow> blendLoop from to eased rest blended
      | Some b \<Rightarrow>
          blendLoop from to eased rest
            (blended(k \<mapsto>
               (case from k of
                  Some a \<Rightarrow> \<lparr>range_start = lerp (range_start a) (range_start b) eased,
                             range_end = lerp (range_end a) (range_end b) eased\<rparr>
                | None \<Rightarrow> b))))"

definition blend ::
  "(string \<rightharpoonup> AngleRange) \<Rightarrow> (string \<rightharpoonup> AngleRange) \<Rightarrow> WheelItem list \<Rightarrow> real \<Rightarrow>
   (string \<rightharpoonup> AngleRange)" where
  "blend from to next eased = blendLoop from to eased next Map.empty"

section \<open>Planning a spin\<close>

text \<open>
  JavaScript's \<open>%\<close> on numbers truncates the quotient towards zero, so the result has the
  sign of the dividend. The divisor is \<open>2\<pi>\<close> wherever the code uses it.
\<close>

definition trunc :: "real \<Rightarrow> int" where
  "trunc x = (if 0 \<le> x then \<lfloor>x\<rfloor> else \<lceil>x\<rceil>)"

definition jsmod :: "real \<Rightarrow> real \<Rightarrow> real" where
  "jsmod x y = x - y * of_int (trunc (x / y))"

definition sliceAngle :: "nat \<Rightarrow> real" where
  "sliceAngle sliceCount = (pi * 2) / real (max 1 sliceCount)"

definition pointerAngle :: real where
  "pointerAngle = - pi / 2"

record SpinPlan =
  landingAngle :: real
  neededDelta :: real
  fullRotations :: int
  targetRotation :: real
  durationMs :: real

text \<open>
  The arithmetic of \<open>spin\<close> between the choice of the winner and the first frame.
  \<open>uLand\<close>, \<open>uExtra\<close> and \<open>uJitter\<close> are the three draws of \<open>Math.random()\<close>, in the
  order the code makes them.
\<close>

definition planSpin :: "int \<Rightarrow> nat \<Rightarrow> real \<Rightarrow> real \<Rightarrow> real \<Rightarrow> real \<Rightarrow> SpinPlan" where
  "planSpin index sliceCount startRotation uLand uExtra uJitter =
     (let margin = sliceAngle sliceCount * 0.15;
          landing = of_int index * sliceAngle sliceCount + margin
                      + uLand * (sliceAngle sliceCount - margin * 2);
          twoPi = pi * 2;
          raw = pointerAngle - landing - startRotation;
          needed = jsmod (jsmod raw twoPi + twoPi) twoPi;
          minFullRotations = 2;
          extraFullRotations = 2 + \<lfloor>uExtra * 4\<rfloor>;
          full = minFullRotations + extraFullRotations;
          delta = of_int full * twoPi + needed;
          target = startRotation + delta;
          totalRotations = delta / twoPi;
          msPerRotation = 1300;
          baseMs = 900
      in \<lparr>landingAngle = landing, neededDelta = needed, fullRotations = full,
          targetRotation = target,
          durationMs = totalRotations * msPerRotation + baseMs + uJitter * 400\<rparr>)"

text \<open>The rotation a spin frame at time \<open>now\<close> writes to \<open>rotationRef\<close>.\<close>

definition spinRot :: "real \<Rightarrow> real \<Rightarrow> real \<Rightarrow> real \<Rightarrow> real \<Rightarrow> real" where
  "spinRot startRotation target startTime duration now =
     (let t = clamp01 ((now - startTime) / duration);
          eased = easeOutQuint t
      in startRotation + (target - startRotation) * eased)"

section \<open>The wheel component\<close>

text \<open>
  The component keeps its state in React refs and one state variable. A frame callback
  handed to \<open>requestAnimationFrame\<close> is a closure over the values of the call that
  created it; the pending callback of each animation is kept in the state together with
  what it captured. \<open>drawWheel\<close> only paints and is left out. The calls of \<open>onResult\<close>
  and \<open>onRemove\<close> are recorded, in order, in two logs. The effect on \<open>size\<close> and
  \<open>dpr\<close> and its cleanup are not part of the model, so no pending spin or pop frame is
  ever cancelled.
\<close>

record SpinAnim =
  sp_startRotation :: real
  sp_targetRotation :: real
  sp_startTime :: real
  sp_durationMs :: real
  sp_index :: int
  sp_winner :: string

record PopAnim =
  pop_idx :: int
  pop_valueToRemove :: string
  pop_startRotation :: real
  pop_startTime :: real

record ReflowAnim =
  rf_from :: "string \<rightharpoonup> AngleRange"
  rf_to :: "string \<rightharpoonup> AngleRange"
  rf_next :: "WheelItem list"
  rf_startTime :: real

record Wheel =
  items :: "WheelItem list"
  isDisabled :: bool
  removeSelectedRequested :: bool
  spinning :: bool
  selectedIndexRef :: "int option"
  rotationRef :: real
  prevItemsRef :: "WheelItem list"
  activeRangesRef :: "string \<rightharpoonup> AngleRange"
  removingRef :: bool
  lastRemoveReqRef :: "bool option"
  spinFrame :: "SpinAnim option"
  popFrame :: "PopAnim option"
  reflowFrame :: "ReflowAnim option"
  onResultCalls :: "string list"
  onRemoveCalls :: "string list"

text \<open>The state after the first render, before any effect has run.\<close>

definition initWheel :: "WheelItem list \<Rightarrow> bool \<Rightarrow> bool \<Rightarrow> Wheel" where
  "initWheel its disabled requested =
     \<lparr>items = its, isDisabled = disabled, removeSelectedRequested = requested,
      spinning = False, selectedIndexRef = None, rotationRef = 0,
      prevItemsRef = its, activeRangesRef = buildEqualRanges its,
      removingRef = False, lastRemoveReqRef = None,
      spinFrame = None, popFrame = None, reflowFrame = None,
      onResultCalls = [], onRemoveCalls = []\<rparr>"

text \<open>\<open>Array.prototype.findIndex\<close>: the first index whose element satisfies \<open>P\<close>, or \<open>-1\<close>.\<close>

fun findIndex :: "('a \<Rightarrow> bool) \<Rightarrow> 'a list \<Rightarrow> int" where
  "findIndex P [] = - 1"
| "findIndex P (x # xs) =
     (if P x then 0 else (let i = findIndex P xs in if i < 0 then - 1 else i + 1))"

text \<open>The first effect on \<open>items\<close>: validation, then the stale selection is dropped.\<close>

definition itemsEffect :: "Wheel \<Rightarrow> error + Wheel" where
  "itemsEffect s =
     (case assertValid (map toJs (items s)) of
        Inl e \<Rightarrow> Inl e
      | Inr u \<Rightarrow>
          (case selectedIndexRef s of
             None \<Rightarrow> Inr s
           | Some i \<Rightarrow>
               if i \<ge> int (length (items s)) then Inr (s\<lparr>selectedIndexRef := None\<rparr>)
               else Inr s))"

text \<open>The reflow effect on \<open>items\<close>; \<open>now\<close> is the reading of \<open>performance.now()\<close>.\<close>

definition reflowEffect :: "real \<Rightarrow> Wheel \<Rightarrow> Wheel" where
  "reflowEffect now s =
     (let prev = prevItemsRef s;
          next = items s;
          to = buildEqualRanges next;
          s' = (if length prev \<noteq> length next \<and> length prev > 1 \<and> length next > 0
                then s\<lparr>reflowFrame :=
                        Some \<lparr>rf_from = buildEqualRanges prev, rf_to = to,
                              rf_next = next, rf_startTime = now\<rparr>\<rparr>
                else s\<lparr>activeRangesRef := to\<rparr>)
      in s'\<lparr>prevItemsRef := next\<rparr>)"

definition reflowStep :: "real \<Rightarrow> Wheel \<Rightarrow> Wheel" where
  "reflowStep now s =
     (case reflowFrame s of
        None \<Rightarrow> s
      | Some a \<Rightarrow>
          (let t = clamp01 ((now - rf_startTime a) / 420);
               eased = easeOutQuint t;
               blended = blend (rf_from a) (rf_to a) (rf_next a) eased;
               s1 = s\<lparr>activeRangesRef := blended\<rparr>
           in if t < 1 then s1
              else s1\<lparr>activeRangesRef := rf_to a, reflowFrame := None\<rparr>))"

text \<open>
  \<open>spin\<close>, with the four draws of \<open>Math.random()\<close> in the order of the code (the first
  one inside \<open>weightedPick\<close>) and the reading of \<open>performance.now()\<close>.
\<close>

definition spin :: "real \<Rightarrow> real \<Rightarrow> real \<Rightarrow> real \<Rightarrow> real \<Rightarrow> Wheel \<Rightarrow> Wheel" where
  "spin uPick uLand uExtra uJitter now s =
     (if spinning s \<or> isDisabled s then s
      else if length (items s) = 0 then s
      else case weightedPick uPick (items s) of
        None \<Rightarrow> s
      | Some winner \<Rightarrow>
          (let index = findIndex (\<lambda>it. value it = value winner) (items s);
               startRotation = rotationRef s;
               p = planSpin index (length (items s)) startRotation uLand uExtra uJitter
           in s\<lparr>spinning := True,
                spinFrame := Some \<lparr>sp_startRotation = startRotation,
                                   sp_targetRotation = targetRotation p,
                                   sp_startTime = now,
                                   sp_durationMs = durationMs p,
                                   sp_index = index,
                                   sp_winner = value winner\<rparr>\<rparr>))"

definition spinStep :: "real \<Rightarrow> Wheel \<Rightarrow> Wheel" where
  "spinStep now s =
     (case spinFrame s of
        None \<Rightarrow> s
      | Some a \<Rightarrow>
          (let t = clamp01 ((now - sp_startTime a) / sp_durationMs a);
               rot = spinRot (sp_startRotation a) (sp_targetRotation a)
                       (sp_startTime a) (sp_durationMs a) now;
               s1 = s\<lparr>rotationRef := rot\<rparr>
           in if t < 1 then s1
              else s1\<lparr>selectedIndexRef := Some (sp_index a),
                      onResultCalls := onResultCalls s @ [sp_winner a],
                      spinning := False,
                      spinFrame := None\<rparr>))"

text \<open>The body of the effect on \<open>removeSelectedRequested\<close>.\<close>

definition removalEffect :: "real \<Rightarrow> Wheel \<Rightarrow> Wheel" where
  "removalEffect now s =
     (if \<not> removeSelectedRequested s then s\<lparr>lastRemoveReqRef := Some False\<rparr>
      else if lastRemoveReqRef s = Some True then s
      else
        (let s1 = s\<lparr>lastRemoveReqRef := Some True\<rparr> in
         if spinning s \<or> isDisabled s then s1
         else if removingRef s then s1
         else case selectedIndexRef s of
           None \<Rightarrow> s1
         | Some idx \<Rightarrow>
             if idx < 0 \<or> idx \<ge> int (length (items s)) then s1
             else s1\<lparr>removingRef := True,
                     popFrame := Some \<lparr>pop_idx = idx,
                                       pop_valueToRemove = value (items s ! nat idx),
                                       pop_startRotation = rotationRef s,
                                       pop_startTime = now\<rparr>\<rparr>))"

definition popStep :: "real \<Rightarrow> Wheel \<Rightarrow> Wheel" where
  "popStep now s =
     (case popFrame s of
        None \<Rightarrow> s
      | Some a \<Rightarrow>
          (let t = clamp01 ((now - pop_startTime a) / 520)
           in if t < 1 then s
              else s\<lparr>removingRef := False,
                     selectedIndexRef := None,
                     onRemoveCalls := onRemoveCalls s @ [pop_valueToRemove a],
                     popFrame := None\<rparr>))"

text \<open>
  What can happen to a mounted wheel: a prop changes (and the effects that depend on it
  run), the SPIN button is clicked, or the browser runs a pending frame callback.
\<close>

datatype event =
    SetItems "WheelItem list" real
  | SetDisabled bool
  | SetRemoveSelectedRequested bool real
  | ClickSpin real real real real real
  | SpinFrame real
  | PopFrame real
  | ReflowFrame real

fun step :: "event \<Rightarrow> Wheel \<Rightarrow> error + Wheel" where
  "step (SetItems its now) s =
     (case itemsEffect (s\<lparr>items := its\<rparr>) of
        Inl e \<Rightarrow> Inl e
      | Inr s1 \<Rightarrow> Inr (reflowEffect now s1))"
| "step (SetDisabled b) s = Inr (s\<lparr>isDisabled := b\<rparr>)"
| "step (SetRemoveSelectedRequested b now) s =
     (if b = removeSelectedRequested s then Inr s
      else Inr (removalEffect now (s\<lparr>removeSelectedRequested := b\<rparr>)))"
| "step (ClickSpin uPick uLand uExtra uJitter now) s = Inr (spin uPick uLand uExtra uJitter now s)"
| "step (SpinFrame now) s = Inr (spinStep now s)"
| "step (PopFrame now) s = Inr (popStep now s)"
| "step (ReflowFrame now) s = Inr (reflowStep now s)"

fun run :: "event list \<Rightarrow> Wheel \<Rightarrow> error + Wheel" where
  "run [] s = Inr s"
| "run (e # es) s = (case step e s of Inl err \<Rightarrow> Inl err | Inr s' \<Rightarrow> run es s')"

section \<open>Slice layout in double precision\<close>

text \<open>
  The engine computes the boundaries of the slices in IEEE binary64: the quotient
  \<open>(Math.PI * 2) / n\<close> and each product \<open>i * slice\<close> is the exact result rounded to the
  nearest number with a 53-bit significand, ties to the even significand. \<open>fl\<close> is that
  rounding, without overflow and underflow: a list has fewer than \<open>2\<^sup>3\<^sup>2\<close> items, so every
  number that occurs here lies between \<open>2\<^sup>-\<^sup>3\<^sup>0\<close> and \<open>8\<close>. The index \<open>i\<close> and \<open>i + 1\<close> are small
  integers and exact. \<open>MathPI\<close> is the double \<open>Math.PI\<close>.
\<close>

definition rne :: "real \<Rightarrow> int" where
  "rne x =
     (let f = \<lfloor>x\<rfloor>; d = x - of_int f
      in if d < 1 / 2 then f else if 1 / 2 < d then f + 1 else if even f then f else f + 1)"

definition expo :: "real \<Rightarrow> int" where
  "expo x = \<lfloor>log 2 \<bar>x\<bar>\<rfloor>"

definition ulp :: "real \<Rightarrow> real" where
  "ulp x = 2 powi (expo x - 52)"

definition fl :: "real \<Rightarrow> real" where
  "fl x = (if x = 0 then 0 else of_int (rne (x / ulp x)) * ulp x)"

definition MathPI :: real where
  "MathPI = 884279719003555 / 2 ^ 48"

fun rangesLoop64 ::
  "real \<Rightarrow> nat \<Rightarrow> WheelItem list \<Rightarrow> (string \<rightharpoonup> AngleRange) \<Rightarrow> (string \<rightharpoonup> AngleRange)" where
  "rangesLoop64 slice i [] m = m"
| "rangesLoop64 slice i (it # rest) m =
     rangesLoop64 slice (i + 1) rest
       (m(keyOf it \<mapsto> \<lparr>range_start = fl (real i * slice),
                       range_end = fl ((real i + 1) * slice)\<rparr>))"

definition buildEqualRanges64 :: "WheelItem list \<Rightarrow> (string \<rightharpoonup> AngleRange)" where
  "buildEqualRanges64 list =
     (let n = max 1 (length list);
          slice = fl (fl (MathPI * 2) / real n)
      in rangesLoop64 slice 0 list Map.empty)"

text \<open>The width of the range a layout gives to an item, and the sum of these widths.\<close>

definition widthOf :: "(string \<rightharpoonup> AngleRange) \<Rightarrow> WheelItem \<Rightarrow> real" where
  "widthOf m it = (case m (keyOf it) of None \<Rightarrow> 0 | Some r \<Rightarrow> range_end r - range_start r)"

definition totalWidth :: "(string \<rightharpoonup> AngleRange) \<Rightarrow> WheelItem list \<Rightarrow> real" where
  "totalWidth m list = sum_list (map (widthOf m) list)"

section \<open>Properties\<close>

subsection \<open>Validation\<close>

lemma jsTotal_sum: "jsTotal its = sum_list (map (\<lambda>it. numOf (jweight it)) its)"
proof -
  have "foldl (\<lambda>s it. s + numOf (jweight it)) a its = a + sum_list (map (\<lambda>it. numOf (jweight it)) its)" for a
    by (induction its arbitrary: a) simp_all
  then show ?thesis by (simp add: jsTotal_def)
qed

lemma checkItems_ok:
  "checkItems its = Inr () \<longleftrightarrow> (\<forall>it\<in>set its. isString (jvalue it) \<and> finiteNonneg (jweight it))"
  by (induction its) auto

lemma checkItems_value:
  "checkItems its = Inl ValueNotString \<Longrightarrow> \<exists>it\<in>set its. \<not> isString (jvalue it)"
  by (induction its) (auto split: if_splits)

lemma checkItems_weight:
  "checkItems its = Inl WeightNotFiniteNonneg \<Longrightarrow> \<exists>it\<in>set its. \<not> finiteNonneg (jweight it)"
  by (induction its) (auto split: if_splits)

lemma checkItems_errors:
  "checkItems its \<noteq> Inl ItemsEmpty \<and> checkItems its \<noteq> Inl TotalNotPositive"
  by (induction its) auto

text \<open>
  Claim C5. Validation of an item list fails exactly when the list is empty, some value
  is not a string, some weight is not a finite number or is negative, or the weights sum
  to at most 0; and the error it fails with names a rule that the list violates. A list
  that satisfies the four rules passes.
\<close>

theorem assertValid_iff:
  "(assertValid its = Inr () \<longleftrightarrow>
      its \<noteq> [] \<and> (\<forall>it\<in>set its. isString (jvalue it)) \<and>
      (\<forall>it\<in>set its. finiteNonneg (jweight it)) \<and> 0 < jsTotal its)
   \<and> (assertValid its = Inl ItemsEmpty \<longrightarrow> its = [])
   \<and> (assertValid its = Inl ValueNotString \<longrightarrow> (\<exists>it\<in>set its. \<not> isString (jvalue it)))
   \<and> (assertValid its = Inl WeightNotFiniteNonneg \<longrightarrow> (\<exists>it\<in>set its. \<not> finiteNonneg (jweight it)))
   \<and> (assertValid its = Inl TotalNotPositive \<longrightarrow> jsTotal its \<le> 0)"
proof -
  have a: "assertValid its = Inr () \<longleftrightarrow>
      its \<noteq> [] \<and> (\<forall>it\<in>set its. isString (jvalue it)) \<and>
      (\<forall>it\<in>set its. finiteNonneg (jweight it)) \<and> 0 < jsTotal its"
    using checkItems_ok [of its]
    by (auto simp: assertValid_def split: sum.splits)
  have b: "assertValid its = Inl ItemsEmpty \<longrightarrow> its = []"
    using checkItems_errors [of its]
    by (auto simp: assertValid_def split: sum.splits if_splits)
  have c: "assertValid its = Inl ValueNotString \<longrightarrow> (\<exists>it\<in>set its. \<not> isString (jvalue it))"
    using checkItems_value [of its]
    by (auto simp: assertValid_def split: sum.splits if_splits)
  have d: "assertValid its = Inl WeightNotFiniteNonneg \<longrightarrow> (\<exists>it\<in>set its. \<not> finiteNonneg (jweight it))"
    using checkItems_weight [of its]
    by (auto simp: assertValid_def split: sum.splits if_splits)
  have e: "assertValid its = Inl TotalNotPositive \<longrightarrow> jsTotal its \<le> 0"
    using checkItems_errors [of its]
    by (auto simp: assertValid_def split: sum.splits if_splits)
  from a b c d e show ?thesis by blast
qed

theorem assertValid_iff_witness:
  "assertValid [\<lparr>jvalue = JString ''a'', jweight = JNumber 0\<rparr>,
                \<lparr>jvalue = JString ''b'', jweight = JNumber 3\<rparr>] = Inr ()
   \<and> assertValid [\<lparr>jvalue = JString ''a'', jweight = JNaN\<rparr>] \<noteq> Inr ()"
  using assertValid_iff [of "[\<lparr>jvalue = JString ''a'', jweight = JNumber 0\<rparr>,
                \<lparr>jvalue = JString ''b'', jweight = JNumber 3\<rparr>]"]
    assertValid_iff [of "[\<lparr>jvalue = JString ''a'', jweight = JNaN\<rparr>]"]
  by (simp add: jsTotal_def)

subsection \<open>Weighted selection\<close>

lemma totalWeight_sum: "totalWeight its = sum_list (map weight its)"
proof -
  have "foldl (\<lambda>s it. s + weight it) a its = a + sum_list (map weight its)" for a
    by (induction its arbitrary: a) simp_all
  then show ?thesis by (simp add: totalWeight_def)
qed

lemma pickLoop_Some:
  "pickLoop r xs = Some it \<Longrightarrow>
     \<exists>i<length xs. it = xs ! i \<and> r - sum_list (map weight (take (Suc i) xs)) \<le> 0 \<and>
        (\<forall>j<i. 0 < r - sum_list (map weight (take (Suc j) xs)))"
proof (induction xs arbitrary: r)
  case Nil
  then show ?case by simp
next
  case (Cons x xs)
  show ?case
  proof (cases "r - weight x \<le> 0")
    case True
    with Cons.prems have "it = x" by simp
    with True show ?thesis by (intro exI [of _ 0]) simp
  next
    case False
    with Cons.prems have "pickLoop (r - weight x) xs = Some it" by (simp add: Let_def)
    from Cons.IH [OF this] obtain i where i: "i < length xs" "it = xs ! i"
      "r - weight x - sum_list (map weight (take (Suc i) xs)) \<le> 0"
      "\<forall>j<i. 0 < r - weight x - sum_list (map weight (take (Suc j) xs))" by blast
    have "\<forall>j<Suc i. 0 < r - sum_list (map weight (take (Suc j) (x # xs)))"
    proof (intro allI impI)
      fix j assume "j < Suc i"
      then show "0 < r - sum_list (map weight (take (Suc j) (x # xs)))"
        using i(4) False by (cases j) (auto simp: algebra_simps)
    qed
    with i(1,2,3) show ?thesis
      by (intro exI [of _ "Suc i"]) (simp add: algebra_simps)
  qed
qed

lemma pickLoop_None:
  "pickLoop r xs = None \<Longrightarrow> \<forall>j<length xs. 0 < r - sum_list (map weight (take (Suc j) xs))"
proof (induction xs arbitrary: r)
  case Nil
  then show ?case by simp
next
  case (Cons x xs)
  from Cons.prems have nle: "\<not> r - weight x \<le> 0" and rest: "pickLoop (r - weight x) xs = None"
    by (auto simp: Let_def split: if_splits)
  show ?case
  proof (intro allI impI)
    fix j assume "j < length (x # xs)"
    then show "0 < r - sum_list (map weight (take (Suc j) (x # xs)))"
      using Cons.IH [OF rest] nle by (cases j) (auto simp: algebra_simps)
  qed
qed

text \<open>
  Claim C6. For a non-empty item list and any draw, \<open>weightedPick\<close> returns an item of
  the list: the first one at which the running remainder is at most 0, or the last item
  when the remainder stays positive along the whole list.
\<close>

theorem weightedPick_member:
  assumes "its \<noteq> []"
  shows "\<exists>it. weightedPick u its = Some it \<and> it \<in> set its \<and>
     ((\<exists>i<length its. it = its ! i \<and> remainder u its i \<le> 0 \<and>
          (\<forall>j<i. 0 < remainder u its j))
      \<or> ((\<forall>j<length its. 0 < remainder u its j) \<and> it = last its))"
proof (cases "pickLoop (u * totalWeight its) its")
  case None
  then have "weightedPick u its = Some (last its)"
    using assms by (simp add: weightedPick_def)
  moreover have "\<forall>j<length its. 0 < remainder u its j"
    using pickLoop_None [OF None] by (simp add: remainder_def)
  ultimately show ?thesis using assms by auto
next
  case (Some it)
  then have "weightedPick u its = Some it" by (simp add: weightedPick_def)
  moreover from pickLoop_Some [OF Some] obtain i where "i < length its" "it = its ! i"
    "remainder u its i \<le> 0" "\<forall>j<i. 0 < remainder u its j"
    unfolding remainder_def by blast
  ultimately show ?thesis by auto
qed

theorem weightedPick_member_witness:
  "[\<lparr>value = ''a'', weight = 1\<rparr>, \<lparr>value = ''b'', weight = 3\<rparr>] \<noteq> []
   \<and> (\<exists>it. weightedPick (1/2) [\<lparr>value = ''a'', weight = 1\<rparr>, \<lparr>value = ''b'', weight = 3\<rparr>] = Some it
         \<and> it \<in> set [\<lparr>value = ''a'', weight = 1\<rparr>, \<lparr>value = ''b'', weight = 3\<rparr>])"
  using weightedPick_member [of "[\<lparr>value = ''a'', weight = 1\<rparr>, \<lparr>value = ''b'', weight = 3\<rparr>]" "1/2"]
  by blast

text \<open>
  A positive draw never selects an item of weight 0: the remainder is positive before
  each item that the walk reaches, so the item that brings it to 0 or below has a
  positive weight, and a draw below 1 never reaches the fallback.
\<close>

lemma pickLoop_weight_pos:
  "0 < r \<Longrightarrow> \<forall>it\<in>set xs. 0 \<le> weight it \<Longrightarrow> pickLoop r xs = Some it \<Longrightarrow> 0 < weight it"
proof (induction xs arbitrary: r)
  case Nil
  then show ?case by simp
next
  case (Cons x xs)
  show ?case
  proof (cases "r - weight x \<le> 0")
    case True
    with Cons.prems show ?thesis by simp
  next
    case False
    with Cons.prems Cons.IH [of "r - weight x"] show ?thesis by (simp add: Let_def)
  qed
qed

lemma weightedPick_pos_draw:
  assumes "0 < u" "u < 1" "\<forall>it\<in>set its. 0 \<le> weight it" "0 < totalWeight its"
    and "weightedPick u its = Some it"
  shows "0 < weight it"
proof (cases "pickLoop (u * totalWeight its) its")
  case None
  have ne: "its \<noteq> []" using assms(4) by (auto simp: totalWeight_def)
  then have "length its - 1 < length its" by simp
  from pickLoop_None [OF None, rule_format, OF this]
  have "0 < u * totalWeight its - totalWeight its"
    using ne by (simp add: totalWeight_sum)
  moreover have "u * totalWeight its < 1 * totalWeight its"
    using assms(2,4) by (intro mult_strict_right_mono) simp_all
  ultimately show ?thesis by simp
next
  case (Some w)
  then have "w = it" using assms(5) by (simp add: weightedPick_def)
  moreover have "0 < u * totalWeight its" using assms(1,4) by simp
  ultimately show ?thesis using pickLoop_weight_pos [OF _ assms(3) Some] by simp
qed

text \<open>
  Claim C1. \<open>weightedPick\<close> never returns an item of weight 0, and on the list
  \<open>[{a,0},{b,0},{c,100}]\<close> every draw yields \<open>c\<close>. The code does not do this at the
  draw 0, which \<open>Math.random()\<close> can return: the remainder is then \<open>0 - 0 = 0\<close> at the
  first item, the test \<open>r <= 0\<close> holds and \<open>a\<close> is returned.
\<close>

theorem weightedPick_zero_draw:
  "weightedPick 0 [\<lparr>value = ''a'', weight = 0\<rparr>, \<lparr>value = ''b'', weight = 0\<rparr>,
                   \<lparr>value = ''c'', weight = 100\<rparr>] = Some \<lparr>value = ''a'', weight = 0\<rparr>"
  by (simp add: weightedPick_def totalWeight_def)

subsection \<open>Equal partition\<close>

lemma rangesLoop_notin:
  "k \<notin> keyOf ` set xs \<Longrightarrow> rangesLoop slice i xs m k = m k"
  by (induction xs arbitrary: i m) auto

lemma rangesLoop_nth:
  "distinct (map keyOf xs) \<Longrightarrow> j < length xs \<Longrightarrow>
   rangesLoop slice i xs m (keyOf (xs ! j)) =
     Some \<lparr>range_start = real (i + j) * slice, range_end = (real (i + j) + 1) * slice\<rparr>"
proof (induction xs arbitrary: i m j)
  case Nil
  then show ?case by simp
next
  case (Cons x xs)
  show ?case
  proof (cases j)
    case 0
    with Cons.prems show ?thesis by (simp add: rangesLoop_notin)
  next
    case (Suc j')
    with Cons.prems Cons.IH [of j' "i + 1"] show ?thesis by simp
  qed
qed

lemma dom_rangesLoop: "dom (rangesLoop slice i xs m) = dom m \<union> keyOf ` set xs"
  by (induction xs arbitrary: i m) auto

lemma dom_buildEqualRanges: "dom (buildEqualRanges xs) = value ` set xs"
  by (simp add: buildEqualRanges_def Let_def dom_rangesLoop keyOf_def [abs_def])

lemma buildEqualRanges_nth:
  assumes "distinct (map value its)" "i < length its"
  shows "buildEqualRanges its (value (its ! i)) =
     Some \<lparr>range_start = real i * (2 * pi / real (length its)),
           range_end = (real i + 1) * (2 * pi / real (length its))\<rparr>"
proof -
  have d: "distinct (map keyOf its)" using assms(1) by (simp add: keyOf_def [abs_def])
  have m: "max (Suc 0) (length its) = length its" using assms(2) by simp
  show ?thesis
    using rangesLoop_nth [OF d assms(2), of "pi * 2 / real (length its)" 0 Map.empty]
    by (simp add: buildEqualRanges_def Let_def m keyOf_def mult.commute)
qed

lemma widths_sum:
  fixes w :: real
  shows "(\<Sum>i<n. ((real i + 1) * w - real i * w)) = real n * w"
  by (induction n) (simp_all add: algebra_simps)

text \<open>
  In exact arithmetic item \<open>i\<close> of \<open>N\<close> has the range from \<open>i \<cdot> (2\<pi> / N)\<close> to
  \<open>(i + 1) \<cdot> (2\<pi> / N)\<close>, and the widths of the ranges sum to \<open>2\<pi>\<close>.
\<close>

lemma buildEqualRanges_exact:
  assumes "its \<noteq> []" "distinct (map value its)"
  shows "(\<forall>i<length its. buildEqualRanges its (value (its ! i)) =
            Some \<lparr>range_start = real i * (2 * pi / real (length its)),
                  range_end = (real i + 1) * (2 * pi / real (length its))\<rparr>)
    \<and> (\<forall>i j. i < j \<longrightarrow> real i * (2 * pi / real (length its))
            < real j * (2 * pi / real (length its)))
    \<and> (\<Sum>it\<leftarrow>its. range_end (the (buildEqualRanges its (value it)))
                     - range_start (the (buildEqualRanges its (value it)))) = 2 * pi"
proof -
  define w where "w = 2 * pi / real (length its)"
  have n: "0 < length its" using assms(1) by simp
  then have w: "0 < w" by (simp add: w_def)
  have a: "\<forall>i<length its. buildEqualRanges its (value (its ! i)) =
            Some \<lparr>range_start = real i * w, range_end = (real i + 1) * w\<rparr>"
    using buildEqualRanges_nth [OF assms(2)] by (simp add: w_def)
  have b: "\<forall>i j. i < j \<longrightarrow> real i * w < real j * w"
    using w by simp
  have "(\<Sum>it\<leftarrow>its. range_end (the (buildEqualRanges its (value it)))
                     - range_start (the (buildEqualRanges its (value it))))
      = (\<Sum>i = 0..<length its. range_end (the (buildEqualRanges its (value (its ! i))))
                     - range_start (the (buildEqualRanges its (value (its ! i)))))"
    by (simp add: sum_list_sum_nth)
  also have "\<dots> = (\<Sum>i = 0..<length its. (real i + 1) * w - real i * w)"
    using a by (intro sum.cong) simp_all
  also have "\<dots> = real (length its) * w"
    using widths_sum [where n = "length its" and w = w] by (simp add: lessThan_atLeast0)
  also have "\<dots> = 2 * pi" using n by (simp add: w_def)
  finally have c: "(\<Sum>it\<leftarrow>its. range_end (the (buildEqualRanges its (value it)))
                     - range_start (the (buildEqualRanges its (value it)))) = 2 * pi" .
  from a b c show ?thesis unfolding w_def by blast
qed

subsection \<open>Equal partition in double precision\<close>

lemma rne_err: "\<bar>of_int (rne x) - x\<bar> \<le> 1 / 2"
proof -
  have "0 \<le> x - of_int \<lfloor>x\<rfloor>" "x - of_int \<lfloor>x\<rfloor> < 1" by linarith+
  then show ?thesis by (auto simp: rne_def Let_def)
qed

lemma expo_bounds:
  assumes "0 < x"
  shows "2 powi expo x \<le> x" and "x < 2 powi (expo x + 1)"
proof -
  have p: "(2::real) powr real_of_int k = 2 powi k" for k
    by (rule powr_real_of_int') simp_all
  have "\<lfloor>log 2 x\<rfloor> = expo x" using assms by (simp add: expo_def)
  then have "2 powi expo x \<le> x \<and> x < 2 powi (expo x + 1)"
    using floor_log_eq_powr_iff [of x 2 "expo x"] assms unfolding p by fastforce
  then show "2 powi expo x \<le> x" and "x < 2 powi (expo x + 1)"
    by blast+
qed

lemma expo_eq:
  assumes "0 < x" "2 powi e \<le> x" "x < 2 powi (e + 1)"
  shows "expo x = e"
proof -
  have p: "(2::real) powr real_of_int k = 2 powi k" for k
    by (rule powr_real_of_int') simp_all
  have "\<lfloor>log 2 x\<rfloor> = e"
    using floor_log_eq_powr_iff [of x 2 e] assms unfolding p by fastforce
  then show ?thesis using assms(1) by (simp add: expo_def)
qed

lemma expo_mono:
  assumes "0 < x" "x \<le> y"
  shows "expo x \<le> expo y"
proof -
  have "log 2 x \<le> log 2 y" using assms by simp
  then show ?thesis using assms by (simp add: expo_def floor_mono)
qed

lemma ulp_pos: "0 < ulp x"
  by (simp add: ulp_def zero_less_power_int)

lemma ulp_mono:
  assumes "0 < x" "x \<le> y"
  shows "ulp x \<le> ulp y"
  unfolding ulp_def using expo_mono [OF assms] by (intro power_int_increasing) simp_all

lemma ulp_le:
  assumes "0 < x"
  shows "ulp x \<le> x / 2 ^ 52"
proof -
  have "ulp x = 2 powi expo x / 2 ^ 52"
    by (simp add: ulp_def power_int_diff)
  also have "\<dots> \<le> x / 2 ^ 52"
    using expo_bounds(1) [OF assms] by (simp add: divide_right_mono)
  finally show ?thesis .
qed

lemma fl_err:
  assumes "x \<noteq> 0"
  shows "\<bar>fl x - x\<bar> \<le> ulp x / 2"
proof -
  have u: "0 < ulp x" by (rule ulp_pos)
  have "fl x - x = (of_int (rne (x / ulp x)) - x / ulp x) * ulp x"
    using assms u by (simp add: fl_def algebra_simps)
  then have "\<bar>fl x - x\<bar> = \<bar>of_int (rne (x / ulp x)) - x / ulp x\<bar> * ulp x"
    using u by (simp add: abs_mult)
  also have "\<dots> \<le> (1 / 2) * ulp x"
    using rne_err [of "x / ulp x"] u by (intro mult_right_mono) simp_all
  finally show ?thesis by simp
qed

lemma fl_rel:
  assumes "0 < x"
  shows "\<bar>fl x - x\<bar> \<le> x / 2 ^ 53"
proof -
  have "\<bar>fl x - x\<bar> \<le> ulp x / 2" using assms by (intro fl_err) simp
  also have "\<dots> \<le> (x / 2 ^ 52) / 2" using ulp_le [OF assms] by simp
  finally show ?thesis by simp
qed

lemma fl_pos:
  assumes "0 < x"
  shows "0 < fl x"
proof -
  have "x / 2 ^ 53 < x" using assms by (simp add: divide_less_eq)
  then show ?thesis using fl_rel [OF assms] by linarith
qed

lemma fl_0: "fl 0 = 0"
  by (simp add: fl_def)

lemma fl_step:
  assumes "0 < s" "0 \<le> a" "a + 1 < 2 ^ 52"
  shows "fl (a * s) < fl ((a + 1) * s)"
proof (cases "a = 0")
  case True
  then show ?thesis using fl_pos [OF assms(1)] by (simp add: fl_0)
next
  case False
  then have a: "0 < a" using assms(2) by simp
  define x where "x = a * s"
  define y where "y = (a + 1) * s"
  have x: "0 < x" using a assms(1) by (simp add: x_def)
  have xy: "x \<le> y" "y - x = s" using assms(1) by (simp_all add: x_def y_def algebra_simps)
  have y: "0 < y" using x xy(1) by linarith
  have "ulp y \<le> y / 2 ^ 52" by (rule ulp_le [OF y])
  also have "\<dots> = s * ((a + 1) / 2 ^ 52)" by (simp add: y_def)
  also have "\<dots> < s * 1"
    using assms(1,3) by (intro mult_strict_left_mono) simp_all
  finally have uy: "ulp y < s" by simp
  have ux: "ulp x \<le> ulp y" by (rule ulp_mono [OF x xy(1)])
  have ex: "\<bar>fl x - x\<bar> \<le> ulp x / 2" using x by (intro fl_err) simp
  have ey: "\<bar>fl y - y\<bar> \<le> ulp y / 2" using y by (intro fl_err) simp
  have "fl x < fl y" using ex ey uy ux xy(2) by linarith
  then show ?thesis by (simp add: x_def y_def)
qed

lemma fl_eval:
  assumes "0 < x" "2 powi e \<le> x" "x < 2 powi (e + 1)"
  shows "fl x = of_int (rne (x / 2 powi (e - 52))) * 2 powi (e - 52)"
  using assms(1) expo_eq [OF assms] by (simp add: fl_def ulp_def)

lemma fl_twoPi: "fl (MathPI * 2) = MathPI * 2"
proof -
  have "fl (MathPI * 2) = of_int (rne (MathPI * 2 / 2 powi (2 - 52))) * 2 powi (2 - 52)"
    by (rule fl_eval) (simp_all add: MathPI_def)
  also have "\<dots> = MathPI * 2" by (simp add: MathPI_def rne_def)
  finally show ?thesis .
qed

lemma slice25: "fl (MathPI * 2 / 25) = 2263756080649101 / 2 ^ 53"
proof -
  have "fl (MathPI * 2 / 25) = of_int (rne (MathPI * 2 / 25 / 2 powi (- 2 - 52))) * 2 powi (- 2 - 52)"
    by (rule fl_eval) (simp_all add: MathPI_def)
  also have "\<dots> = 2263756080649101 / 2 ^ 53" by (simp add: MathPI_def rne_def)
  finally show ?thesis .
qed

lemma last25: "fl (25 * (2263756080649101 / 2 ^ 53)) = 7074237752028441 / 2 ^ 50"
proof -
  have "fl (25 * (2263756080649101 / 2 ^ 53))
      = of_int (rne (25 * (2263756080649101 / 2 ^ 53) / 2 powi (2 - 52))) * 2 powi (2 - 52)"
    by (rule fl_eval) simp_all
  also have "\<dots> = 7074237752028441 / 2 ^ 50" by (simp add: rne_def)
  finally show ?thesis .
qed

lemma near:
  assumes "0 < T" "0 < n"
  shows "\<bar>fl (n * fl (T / n)) - T\<bar> \<le> T / 2 ^ 51"
proof -
  define q where "q = T / n"
  define s where "s = fl q"
  have q: "0 < q" using assms by (simp add: q_def)
  have s: "0 < s" unfolding s_def by (rule fl_pos [OF q])
  have e1: "\<bar>s - q\<bar> \<le> q / 2 ^ 53" unfolding s_def by (rule fl_rel [OF q])
  have ns: "0 < n * s" using assms(2) s by simp
  have e2: "\<bar>fl (n * s) - n * s\<bar> \<le> n * s / 2 ^ 53" by (rule fl_rel [OF ns])
  have nq: "n * q = T" using assms(2) by (simp add: q_def)
  have "n * s - T = n * (s - q)" unfolding nq [symmetric] by (simp add: algebra_simps)
  then have "\<bar>n * s - T\<bar> = n * \<bar>s - q\<bar>"
    using assms(2) by (simp add: abs_mult)
  also have "\<dots> \<le> n * (q / 2 ^ 53)"
    using e1 assms(2) by (intro mult_left_mono) simp_all
  also have "\<dots> = T / 2 ^ 53" using nq by simp
  finally have e3: "\<bar>n * s - T\<bar> \<le> T / 2 ^ 53" .
  then have "n * s \<le> T + T / 2 ^ 53" by linarith
  also have "\<dots> \<le> 2 * T" using assms(1) by (simp add: divide_le_eq)
  finally have "n * s / 2 ^ 53 \<le> 2 * T / 2 ^ 53" by (simp add: divide_right_mono)
  then have "\<bar>fl (n * s) - n * s\<bar> \<le> T / 2 ^ 52" using e2 by simp
  then have "\<bar>fl (n * s) - T\<bar> \<le> T / 2 ^ 52 + T / 2 ^ 53" using e3 by linarith
  also have "\<dots> \<le> T / 2 ^ 51" using assms(1) by simp
  finally show ?thesis by (simp add: s_def q_def)
qed

lemma MathPI_pos: "0 < MathPI"
  by (simp add: MathPI_def)

lemma rangesLoop64_notin:
  "k \<notin> keyOf ` set xs \<Longrightarrow> rangesLoop64 slice i xs m k = m k"
  by (induction xs arbitrary: i m) auto

lemma rangesLoop64_nth:
  "distinct (map keyOf xs) \<Longrightarrow> j < length xs \<Longrightarrow>
   rangesLoop64 slice i xs m (keyOf (xs ! j)) =
     Some \<lparr>range_start = fl (real (i + j) * slice), range_end = fl ((real (i + j) + 1) * slice)\<rparr>"
proof (induction xs arbitrary: i m j)
  case Nil
  then show ?case by simp
next
  case (Cons x xs)
  show ?case
  proof (cases j)
    case 0
    with Cons.prems show ?thesis by (simp add: rangesLoop64_notin)
  next
    case (Suc j')
    with Cons.prems Cons.IH [of j' "i + 1"] show ?thesis by simp
  qed
qed

lemma buildEqualRanges64_nth:
  assumes "distinct (map value its)" "i < length its"
  shows "buildEqualRanges64 its (value (its ! i)) =
     Some \<lparr>range_start = fl (real i * fl (fl (MathPI * 2) / real (length its))),
           range_end = fl ((real i + 1) * fl (fl (MathPI * 2) / real (length its)))\<rparr>"
proof -
  have d: "distinct (map keyOf its)" using assms(1) by (simp add: keyOf_def [abs_def])
  have m: "max (Suc 0) (length its) = length its" using assms(2) by simp
  show ?thesis
    using rangesLoop64_nth [OF d assms(2), of "fl (fl (MathPI * 2) / real (length its))" 0 Map.empty]
    by (simp add: buildEqualRanges64_def Let_def m keyOf_def)
qed

lemma totalWidth64:
  assumes "distinct (map value its)"
  shows "totalWidth (buildEqualRanges64 its) its
     = fl (real (length its) * fl (fl (MathPI * 2) / real (length its)))"
proof -
  define s where "s = fl (fl (MathPI * 2) / real (length its))"
  define f where "f = (\<lambda>i. fl (real i * s))"
  have w: "widthOf (buildEqualRanges64 its) (its ! i) = f (Suc i) - f i" if "i < length its" for i
    using buildEqualRanges64_nth [OF assms that]
    by (simp add: widthOf_def keyOf_def f_def s_def add.commute)
  have "totalWidth (buildEqualRanges64 its) its
      = (\<Sum>i = 0..<length its. widthOf (buildEqualRanges64 its) (its ! i))"
    by (simp add: totalWidth_def sum_list_sum_nth)
  also have "\<dots> = (\<Sum>i = 0..<length its. f (Suc i) - f i)"
    using w by (intro sum.cong) simp_all
  also have "\<dots> = f (length its) - f 0"
    using sum_lessThan_telescope [of f "length its"] by (simp add: lessThan_atLeast0)
  also have "\<dots> = fl (real (length its) * s)" by (simp add: f_def fl_0)
  finally show ?thesis by (simp add: s_def)
qed

lemma boundaries64_increasing:
  assumes "0 < s" "i < j" "real j < 2 ^ 52"
  shows "fl (real i * s) < fl (real j * s)"
  using assms(2,3)
proof (induction j)
  case 0
  then show ?case by simp
next
  case (Suc j)
  have st: "fl (real j * s) < fl (real (Suc j) * s)"
    using fl_step [OF assms(1), of "real j"] Suc.prems(2) by (simp add: add.commute)
  show ?case
  proof (cases "i = j")
    case True
    then show ?thesis using st by simp
  next
    case False
    then have "i < j" using Suc.prems(1) by simp
    moreover have "real j < 2 ^ 52" using Suc.prems(2) by simp
    ultimately have "fl (real i * s) < fl (real j * s)" by (rule Suc.IH)
    then show ?thesis using st by simp
  qed
qed

text \<open>
  Claim C7, as the code has it. For a non-empty list of fewer than \<open>2\<^sup>3\<^sup>2\<close> items with
  pairwise distinct values, the layout gives item \<open>i\<close> the range from the rounded product
  of \<open>i\<close> and the slice to the rounded product of \<open>i + 1\<close> and the slice, where the slice
  is the rounded quotient of \<open>2\<pi>\<close> by the item count. These boundaries increase strictly
  with the index. Each range ends where the next one starts and the first starts at 0, so
  the widths sum to the last boundary, which differs from \<open>2\<pi>\<close> by at most \<open>2\<pi> / 2\<^sup>5\<^sup>1\<close>.
\<close>

theorem buildEqualRanges64_partition:
  assumes "its \<noteq> []" "distinct (map value its)" "length its < 2 ^ 32"
  shows "(\<forall>i<length its. buildEqualRanges64 its (value (its ! i)) =
            Some \<lparr>range_start = fl (real i * fl (fl (MathPI * 2) / real (length its))),
                  range_end = fl ((real i + 1) * fl (fl (MathPI * 2) / real (length its)))\<rparr>)
    \<and> (\<forall>i j. i < j \<and> j \<le> length its \<longrightarrow>
           fl (real i * fl (fl (MathPI * 2) / real (length its)))
             < fl (real j * fl (fl (MathPI * 2) / real (length its))))
    \<and> totalWidth (buildEqualRanges64 its) its
         = fl (real (length its) * fl (fl (MathPI * 2) / real (length its)))
    \<and> \<bar>totalWidth (buildEqualRanges64 its) its - MathPI * 2\<bar> \<le> MathPI * 2 / 2 ^ 51"
proof -
  define s where "s = fl (fl (MathPI * 2) / real (length its))"
  have n: "0 < real (length its)" using assms(1) by simp
  have T: "0 < MathPI * 2" using MathPI_pos by simp
  have s: "0 < s" unfolding s_def fl_twoPi using n T by (intro fl_pos) simp
  have a: "\<forall>i<length its. buildEqualRanges64 its (value (its ! i)) =
            Some \<lparr>range_start = fl (real i * s), range_end = fl ((real i + 1) * s)\<rparr>"
    using buildEqualRanges64_nth [OF assms(2)] by (simp add: s_def)
  have b: "\<forall>i j. i < j \<and> j \<le> length its \<longrightarrow> fl (real i * s) < fl (real j * s)"
  proof (intro allI impI)
    fix i j assume ij: "i < j \<and> j \<le> length its"
    then have "j < 2 ^ 32" using assms(3) by simp
    then have "real j < 2 ^ 32" by (metis of_nat_less_iff of_nat_numeral of_nat_power)
    then have "real j < 2 ^ 52" by simp
    with ij show "fl (real i * s) < fl (real j * s)"
      by (intro boundaries64_increasing [OF s]) simp_all
  qed
  have c: "totalWidth (buildEqualRanges64 its) its = fl (real (length its) * s)"
    using totalWidth64 [OF assms(2)] by (simp add: s_def)
  have d: "\<bar>totalWidth (buildEqualRanges64 its) its - MathPI * 2\<bar> \<le> MathPI * 2 / 2 ^ 51"
    unfolding c s_def fl_twoPi by (rule near [OF T n])
  from a b c d show ?thesis unfolding s_def by blast
qed

theorem buildEqualRanges64_partition_witness:
  "[\<lparr>value = ''a'', weight = 1\<rparr>, \<lparr>value = ''b'', weight = 3\<rparr>] \<noteq> []
   \<and> distinct (map value [\<lparr>value = ''a'', weight = 1\<rparr>, \<lparr>value = ''b'', weight = 3\<rparr>])
   \<and> length [\<lparr>value = ''a'', weight = 1\<rparr>, \<lparr>value = ''b'', weight = 3\<rparr>] < 2 ^ 32
   \<and> \<bar>totalWidth (buildEqualRanges64 [\<lparr>value = ''a'', weight = 1\<rparr>, \<lparr>value = ''b'', weight = 3\<rparr>])
         [\<lparr>value = ''a'', weight = 1\<rparr>, \<lparr>value = ''b'', weight = 3\<rparr>] - MathPI * 2\<bar>
       \<le> MathPI * 2 / 2 ^ 51"
proof -
  have h1: "[\<lparr>value = ''a'', weight = 1::real\<rparr>, \<lparr>value = ''b'', weight = 3\<rparr>] \<noteq> []"
    by simp
  have h2: "distinct (map value [\<lparr>value = ''a'', weight = 1::real\<rparr>, \<lparr>value = ''b'', weight = 3\<rparr>])"
    by simp
  have h3: "length [\<lparr>value = ''a'', weight = 1::real\<rparr>, \<lparr>value = ''b'', weight = 3\<rparr>] < 2 ^ 32"
    by simp
  show ?thesis
    using h1 h2 h3 buildEqualRanges64_partition [OF h1 h2 h3] by blast
qed

text \<open>
  The widths do not always sum to \<open>2\<pi>\<close> exactly: for 25 items the slice is
  \<open>2263756080649101 / 2\<^sup>5\<^sup>3\<close> and the last boundary is \<open>7074237752028441 / 2\<^sup>5\<^sup>0\<close>, one unit
  in the last place above \<open>Math.PI * 2\<close>.
\<close>

theorem equal_ranges_of_25_items:
  "totalWidth
     (buildEqualRanges64
        [\<lparr>value = ''a'', weight = 1\<rparr>, \<lparr>value = ''b'', weight = 1\<rparr>, \<lparr>value = ''c'', weight = 1\<rparr>,
         \<lparr>value = ''d'', weight = 1\<rparr>, \<lparr>value = ''e'', weight = 1\<rparr>, \<lparr>value = ''f'', weight = 1\<rparr>,
         \<lparr>value = ''g'', weight = 1\<rparr>, \<lparr>value = ''h'', weight = 1\<rparr>, \<lparr>value = ''i'', weight = 1\<rparr>,
         \<lparr>value = ''j'', weight = 1\<rparr>, \<lparr>value = ''k'', weight = 1\<rparr>, \<lparr>value = ''l'', weight = 1\<rparr>,
         \<lparr>value = ''m'', weight = 1\<rparr>, \<lparr>value = ''n'', weight = 1\<rparr>, \<lparr>value = ''o'', weight = 1\<rparr>,
         \<lparr>value = ''p'', weight = 1\<rparr>, \<lparr>value = ''q'', weight = 1\<rparr>, \<lparr>value = ''r'', weight = 1\<rparr>,
         \<lparr>value = ''s'', weight = 1\<rparr>, \<lparr>value = ''t'', weight = 1\<rparr>, \<lparr>value = ''u'', weight = 1\<rparr>,
         \<lparr>value = ''v'', weight = 1\<rparr>, \<lparr>value = ''w'', weight = 1\<rparr>, \<lparr>value = ''x'', weight = 1\<rparr>,
         \<lparr>value = ''y'', weight = 1\<rparr>])
     [\<lparr>value = ''a'', weight = 1\<rparr>, \<lparr>value = ''b'', weight = 1\<rparr>, \<lparr>value = ''c'', weight = 1\<rparr>,
      \<lparr>value = ''d'', weight = 1\<rparr>, \<lparr>value = ''e'', weight = 1\<rparr>, \<lparr>value = ''f'', weight = 1\<rparr>,
      \<lparr>value = ''g'', weight = 1\<rparr>, \<lparr>value = ''h'', weight = 1\<rparr>, \<lparr>value = ''i'', weight = 1\<rparr>,
      \<lparr>value = ''j'', weight = 1\<rparr>, \<lparr>value = ''k'', weight = 1\<rparr>, \<lparr>value = ''l'', weight = 1\<rparr>,
      \<lparr>value = ''m'', weight = 1\<rparr>, \<lparr>value = ''n'', weight = 1\<rparr>, \<lparr>value = ''o'', weight = 1\<rparr>,
      \<lparr>value = ''p'', weight = 1\<rparr>, \<lparr>value = ''q'', weight = 1\<rparr>, \<lparr>value = ''r'', weight = 1\<rparr>,
      \<lparr>value = ''s'', weight = 1\<rparr>, \<lparr>value = ''t'', weight = 1\<rparr>, \<lparr>value = ''u'', weight = 1\<rparr>,
      \<lparr>value = ''v'', weight = 1\<rparr>, \<lparr>value = ''w'', weight = 1\<rparr>, \<lparr>value = ''x'', weight = 1\<rparr>,
      \<lparr>value = ''y'', weight = 1\<rparr>]
     = 7074237752028441 / 2 ^ 50
   \<and> MathPI * 2 = 7074237752028440 / 2 ^ 50
   \<and> (7074237752028441 / 2 ^ 50 :: real) \<noteq> MathPI * 2"
proof -
  define its where "its =
     [\<lparr>value = ''a'', weight = 1::real\<rparr>, \<lparr>value = ''b'', weight = 1\<rparr>, \<lparr>value = ''c'', weight = 1\<rparr>,
      \<lparr>value = ''d'', weight = 1\<rparr>, \<lparr>value = ''e'', weight = 1\<rparr>, \<lparr>value = ''f'', weight = 1\<rparr>,
      \<lparr>value = ''g'', weight = 1\<rparr>, \<lparr>value = ''h'', weight = 1\<rparr>, \<lparr>value = ''i'', weight = 1\<rparr>,
      \<lparr>value = ''j'', weight = 1\<rparr>, \<lparr>value = ''k'', weight = 1\<rparr>, \<lparr>value = ''l'', weight = 1\<rparr>,
      \<lparr>value = ''m'', weight = 1\<rparr>, \<lparr>value = ''n'', weight = 1\<rparr>, \<lparr>value = ''o'', weight = 1\<rparr>,
      \<lparr>value = ''p'', weight = 1\<rparr>, \<lparr>value = ''q'', weight = 1\<rparr>, \<lparr>value = ''r'', weight = 1\<rparr>,
      \<lparr>value = ''s'', weight = 1\<rparr>, \<lparr>value = ''t'', weight = 1\<rparr>, \<lparr>value = ''u'', weight = 1\<rparr>,
      \<lparr>value = ''v'', weight = 1\<rparr>, \<lparr>value = ''w'', weight = 1\<rparr>, \<lparr>value = ''x'', weight = 1\<rparr>,
      \<lparr>value = ''y'', weight = 1\<rparr>]"
  have d: "distinct (map value its)" by (simp add: its_def)
  have l: "length its = 25" by (simp add: its_def)
  have "totalWidth (buildEqualRanges64 its) its = fl (25 * fl (MathPI * 2 / 25))"
    using totalWidth64 [OF d] by (simp add: l fl_twoPi)
  also have "\<dots> = 7074237752028441 / 2 ^ 50"
    unfolding slice25 by (rule last25)
  finally have "totalWidth (buildEqualRanges64 its) its = 7074237752028441 / 2 ^ 50" .
  moreover have "MathPI * 2 = 7074237752028440 / 2 ^ 50" by (simp add: MathPI_def)
  moreover have "(7074237752028441 / 2 ^ 50 :: real) \<noteq> MathPI * 2" by (simp add: MathPI_def)
  ultimately show ?thesis unfolding its_def by blast
qed

subsection \<open>Easing and blending\<close>

lemma clamp01_range: "0 \<le> clamp01 x \<and> clamp01 x \<le> 1"
  by (simp add: clamp01_def)

lemma clamp01_mono: "x \<le> y \<Longrightarrow> clamp01 x \<le> clamp01 y"
  by (simp add: clamp01_def max_def min_def)

lemma clamp01_ge1: "1 \<le> x \<Longrightarrow> clamp01 x = 1"
  by (simp add: clamp01_def)

lemma easeOutQuint_0: "easeOutQuint 0 = 0"
  by (simp add: easeOutQuint_def)

lemma easeOutQuint_1: "easeOutQuint 1 = 1"
  by (simp add: easeOutQuint_def)

lemma easeOutQuint_mono:
  assumes "0 \<le> a" "a \<le> b" "b \<le> 1"
  shows "easeOutQuint a \<le> easeOutQuint b"
proof -
  have "(1 - b) ^ 5 \<le> (1 - a) ^ 5"
    using assms by (intro power_mono) simp_all
  then show ?thesis by (simp add: easeOutQuint_def)
qed

lemma easeOutQuint_range:
  assumes "0 \<le> t" "t \<le> 1"
  shows "0 \<le> easeOutQuint t \<and> easeOutQuint t \<le> 1"
  using easeOutQuint_mono [of 0 t] easeOutQuint_mono [of t 1] assms
  by (simp add: easeOutQuint_0 easeOutQuint_1)

lemma lerp_0: "lerp a b 0 = a"
  by (simp add: lerp_def)

lemma lerp_1: "lerp a b 1 = b"
  by (simp add: lerp_def)

lemma blendLoop_lookup:
  "blendLoop from to eased xs acc k =
     (if k \<in> keyOf ` set xs \<and> to k \<noteq> None
      then Some (case from k of
                   Some a \<Rightarrow> \<lparr>range_start = lerp (range_start a) (range_start (the (to k))) eased,
                              range_end = lerp (range_end a) (range_end (the (to k))) eased\<rparr>
                 | None \<Rightarrow> the (to k))
      else acc k)"
  by (induction xs arbitrary: acc) (auto simp: Let_def split: option.splits)

text \<open>
  Claim C8. In a reflow from any layout \<open>from\<close> to the equal partition \<open>to\<close> of the new
  items, the blended layout at progress 0 has the range of \<open>from\<close> and at progress 1 the
  range of \<open>to\<close>, for every key that both layouts have; a key that only \<open>to\<close> has keeps
  the range of \<open>to\<close> at every progress.
\<close>

theorem blend_endpoints:
  assumes "to = buildEqualRanges next" "to k = Some b"
  shows "(from k = Some a \<longrightarrow>
            blend from to next (easeOutQuint 0) k = Some a \<and>
            blend from to next (easeOutQuint 1) k = Some b)
       \<and> (from k = None \<longrightarrow> blend from to next (easeOutQuint t) k = Some b)"
proof -
  have "k \<in> dom to" using assms(2) by blast
  then have k: "k \<in> keyOf ` set next"
    unfolding assms(1) dom_buildEqualRanges by (simp add: keyOf_def [abs_def])
  show ?thesis
    using k assms(2)
    by (simp add: blend_def blendLoop_lookup easeOutQuint_0 easeOutQuint_1 lerp_0 lerp_1)
qed

theorem blend_endpoints_witness:
  "buildEqualRanges [\<lparr>value = ''a'', weight = 1\<rparr>] ''a'' = Some \<lparr>range_start = 0, range_end = 2 * pi\<rparr>
   \<and> blend (buildEqualRanges [\<lparr>value = ''a'', weight = 1\<rparr>, \<lparr>value = ''b'', weight = 3\<rparr>])
        (buildEqualRanges [\<lparr>value = ''a'', weight = 1\<rparr>]) [\<lparr>value = ''a'', weight = 1\<rparr>]
        (easeOutQuint 1) ''a'' = Some \<lparr>range_start = 0, range_end = 2 * pi\<rparr>
   \<and> blend (buildEqualRanges [\<lparr>value = ''a'', weight = 1\<rparr>, \<lparr>value = ''b'', weight = 3\<rparr>])
        (buildEqualRanges [\<lparr>value = ''a'', weight = 1\<rparr>]) [\<lparr>value = ''a'', weight = 1\<rparr>]
        (easeOutQuint 0) ''a'' = Some \<lparr>range_start = 0, range_end = pi\<rparr>"
proof -
  have t: "buildEqualRanges [\<lparr>value = ''a'', weight = 1\<rparr>] ''a''
      = Some \<lparr>range_start = 0, range_end = 2 * pi\<rparr>"
    by (simp add: buildEqualRanges_def keyOf_def)
  have f: "buildEqualRanges [\<lparr>value = ''a'', weight = 1\<rparr>, \<lparr>value = ''b'', weight = 3\<rparr>] ''a''
      = Some \<lparr>range_start = 0, range_end = pi\<rparr>"
    by (simp add: buildEqualRanges_def keyOf_def)
  show ?thesis
    using blend_endpoints [OF refl t,
        of "buildEqualRanges [\<lparr>value = ''a'', weight = 1\<rparr>, \<lparr>value = ''b'', weight = 3\<rparr>]"
           "\<lparr>range_start = 0, range_end = pi\<rparr>"] t f
    by simp
qed

subsection \<open>Planning a spin\<close>

lemma jsmod_shift: "\<exists>k::int. jsmod x y = x - y * of_int k"
  by (auto simp: jsmod_def)

lemma jsmod_lower:
  assumes "0 < y"
  shows "- y < jsmod x y"
proof -
  have "x / y - of_int (trunc (x / y)) > -1"
    unfolding trunc_def by (auto; linarith)
  then have "y * (x / y - of_int (trunc (x / y))) > y * (-1)"
    using assms by (intro mult_strict_left_mono) simp_all
  then show ?thesis using assms by (simp add: jsmod_def algebra_simps)
qed

lemma jsmod_pos_range:
  assumes "0 < y" "0 \<le> x"
  shows "0 \<le> jsmod x y \<and> jsmod x y < y"
proof -
  have q: "0 \<le> x / y" using assms by simp
  then have t: "trunc (x / y) = \<lfloor>x / y\<rfloor>" by (simp add: trunc_def)
  have "0 \<le> x / y - of_int \<lfloor>x / y\<rfloor>" "x / y - of_int \<lfloor>x / y\<rfloor> < 1" by linarith+
  then have "0 \<le> y * (x / y - of_int \<lfloor>x / y\<rfloor>)" "y * (x / y - of_int \<lfloor>x / y\<rfloor>) < y * 1"
    using assms(1) by (simp_all del: mult_1_right)
  then show ?thesis using assms(1) by (simp add: jsmod_def t algebra_simps)
qed

lemma needed_range:
  assumes "0 < y"
  shows "0 \<le> jsmod (jsmod x y + y) y \<and> jsmod (jsmod x y + y) y < y"
  using jsmod_pos_range [OF assms, of "jsmod x y + y"] jsmod_lower [OF assms, of x] by simp

lemma needed_shift:
  "\<exists>k::int. jsmod (jsmod x y + y) y = x + y * of_int k"
proof -
  obtain k1 :: int where k1: "jsmod x y = x - y * of_int k1" using jsmod_shift by blast
  obtain k2 :: int where k2: "jsmod (jsmod x y + y) y = jsmod x y + y - y * of_int k2"
    using jsmod_shift by blast
  have "jsmod (jsmod x y + y) y = x + y * of_int (1 - k1 - k2)"
    unfolding k2 unfolding k1 by (simp add: algebra_simps)
  then show ?thesis by blast
qed

lemma floor4:
  fixes u :: real
  assumes "0 \<le> u" "u < 1"
  shows "0 \<le> \<lfloor>u * 4\<rfloor> \<and> \<lfloor>u * 4\<rfloor> \<le> 3"
proof -
  have "0 \<le> u * 4" "u * 4 < 4" using assms by simp_all
  then have "0 \<le> \<lfloor>u * 4\<rfloor>" "\<lfloor>u * 4\<rfloor> < 4" by (simp_all add: floor_less_iff)
  then show ?thesis by simp
qed

lemma sliceAngle_pos: "0 < sliceAngle n"
  by (simp add: sliceAngle_def)

lemma planSpin_facts:
  assumes "0 \<le> uLand" "uLand < 1" "0 \<le> uExtra" "uExtra < 1"
  shows "targetRotation (planSpin index n cur uLand uExtra uJitter) \<ge> cur + 4 * (2 * pi)
    \<and> 4 \<le> fullRotations (planSpin index n cur uLand uExtra uJitter)
    \<and> fullRotations (planSpin index n cur uLand uExtra uJitter) \<le> 7
    \<and> (\<exists>k::int. targetRotation (planSpin index n cur uLand uExtra uJitter)
            + landingAngle (planSpin index n cur uLand uExtra uJitter)
          = pointerAngle + 2 * pi * of_int k)
    \<and> of_int index * sliceAngle n + 0.15 * sliceAngle n
          \<le> landingAngle (planSpin index n cur uLand uExtra uJitter)
    \<and> landingAngle (planSpin index n cur uLand uExtra uJitter)
          < (of_int index + 1) * sliceAngle n - 0.15 * sliceAngle n"
proof -
  define p where "p = planSpin index n cur uLand uExtra uJitter"
  define sa where "sa = sliceAngle n"
  define raw where "raw = pointerAngle - landingAngle p - cur"
  have sa: "0 < sa" by (simp add: sa_def sliceAngle_pos)
  have land: "landingAngle p = of_int index * sa + sa * 0.15 + uLand * (sa - sa * 0.15 * 2)"
    by (simp add: p_def planSpin_def Let_def sa_def)
  have full: "fullRotations p = 2 + (2 + \<lfloor>uExtra * 4\<rfloor>)"
    by (simp add: p_def planSpin_def Let_def)
  have needed: "neededDelta p = jsmod (jsmod raw (pi * 2) + pi * 2) (pi * 2)"
    by (simp add: raw_def p_def planSpin_def Let_def)
  have target: "targetRotation p = cur + (of_int (fullRotations p) * (pi * 2) + neededDelta p)"
    by (simp add: p_def planSpin_def Let_def)
  have f: "4 \<le> fullRotations p" "fullRotations p \<le> 7"
    using floor4 [OF assms(3,4)] by (simp_all add: full)
  have nn: "0 \<le> neededDelta p"
    using needed_range [of "pi * 2" raw] by (simp add: needed)
  have "(4::real) \<le> of_int (fullRotations p)" using f(1) by linarith
  then have "4 * (pi * 2) \<le> of_int (fullRotations p) * (pi * 2)"
    by (intro mult_right_mono) simp_all
  then have t: "cur + 4 * (2 * pi) \<le> targetRotation p"
    using nn unfolding target by linarith
  obtain k :: int where k: "neededDelta p = raw + (pi * 2) * of_int k"
    using needed_shift [of raw "pi * 2"] unfolding needed by blast
  have "targetRotation p + landingAngle p = pointerAngle + 2 * pi * of_int (fullRotations p + k)"
    unfolding target k by (simp add: raw_def algebra_simps)
  then have al: "\<exists>k::int. targetRotation p + landingAngle p = pointerAngle + 2 * pi * of_int k"
    by blast
  define x where "x = uLand * (sa * 0.7)"
  have x0: "0 \<le> x" using assms(1) sa by (simp add: x_def)
  have "uLand * (sa * 0.7) < 1 * (sa * 0.7)"
    using assms(2) sa by (intro mult_strict_right_mono) simp_all
  then have x1: "x < sa * 0.7" by (simp add: x_def)
  have land': "landingAngle p = of_int index * sa + sa * 0.15 + x"
    by (simp add: land x_def algebra_simps)
  have up: "(of_int index + 1) * sa = of_int index * sa + sa"
    by (simp add: algebra_simps)
  have l: "of_int index * sa + 0.15 * sa \<le> landingAngle p"
    "landingAngle p < (of_int index + 1) * sa - 0.15 * sa"
    using x0 x1 unfolding land' up by (simp_all add: algebra_simps)
  from t f al l show ?thesis unfolding p_def sa_def by blast
qed



lemma planSpin_duration_pos:
  assumes "0 \<le> uExtra" "uExtra < 1" "0 \<le> uJitter"
  shows "0 < durationMs (planSpin index n cur uLand uExtra uJitter)"
proof -
  define p where "p = planSpin index n cur uLand uExtra uJitter"
  define raw where "raw = pointerAngle - landingAngle p - cur"
  have needed: "neededDelta p = jsmod (jsmod raw (pi * 2) + pi * 2) (pi * 2)"
    by (simp add: raw_def p_def planSpin_def Let_def)
  have full: "fullRotations p = 2 + (2 + \<lfloor>uExtra * 4\<rfloor>)"
    by (simp add: p_def planSpin_def Let_def)
  have d: "durationMs p =
      (of_int (fullRotations p) * (pi * 2) + neededDelta p) / (pi * 2) * 1300 + 900 + uJitter * 400"
    by (simp add: p_def planSpin_def Let_def)
  have "0 \<le> neededDelta p"
    using needed_range [of "pi * 2" raw] by (simp add: needed)
  moreover have "(0::real) \<le> of_int (fullRotations p)"
    using floor4 [OF assms(1,2)] by (simp add: full)
  ultimately have "0 \<le> (of_int (fullRotations p) * (pi * 2) + neededDelta p) / (pi * 2) * 1300"
    by simp
  then show ?thesis using assms(3) unfolding p_def [symmetric] d by linarith
qed

lemma spinRot_bounds:
  assumes "s \<le> g"
  shows "s \<le> spinRot s g t0 d now \<and> spinRot s g t0 d now \<le> g"
proof -
  define e where "e = easeOutQuint (clamp01 ((now - t0) / d))"
  have e: "0 \<le> e" "e \<le> 1"
    using easeOutQuint_range [of "clamp01 ((now - t0) / d)"] clamp01_range [of "(now - t0) / d"]
    by (simp_all add: e_def)
  have r: "spinRot s g t0 d now = s + (g - s) * e"
    by (simp add: spinRot_def e_def)
  have "0 \<le> (g - s) * e" using assms e(1) by simp
  moreover have "(g - s) * e \<le> (g - s) * 1"
    using assms e(2) by (intro mult_left_mono) simp_all
  ultimately show ?thesis by (simp add: r)
qed

lemma spinRot_mono:
  assumes "s \<le> g" "0 < d" "now1 \<le> now2"
  shows "spinRot s g t0 d now1 \<le> spinRot s g t0 d now2"
proof -
  have "(now1 - t0) / d \<le> (now2 - t0) / d"
    using assms(2,3) by (simp add: divide_right_mono)
  then have "clamp01 ((now1 - t0) / d) \<le> clamp01 ((now2 - t0) / d)"
    by (rule clamp01_mono)
  then have "easeOutQuint (clamp01 ((now1 - t0) / d)) \<le> easeOutQuint (clamp01 ((now2 - t0) / d))"
    using clamp01_range [of "(now1 - t0) / d"] clamp01_range [of "(now2 - t0) / d"]
    by (intro easeOutQuint_mono) simp_all
  then have "(g - s) * easeOutQuint (clamp01 ((now1 - t0) / d))
      \<le> (g - s) * easeOutQuint (clamp01 ((now2 - t0) / d))"
    using assms(1) by (intro mult_left_mono) simp_all
  then show ?thesis by (simp add: spinRot_def)
qed

lemma spinRot_final:
  assumes "0 < d" "t0 + d \<le> now"
  shows "spinRot s g t0 d now = g"
proof -
  have "1 \<le> (now - t0) / d" using assms by (simp add: le_divide_eq)
  then have "clamp01 ((now - t0) / d) = 1" by (rule clamp01_ge1)
  then show ?thesis by (simp add: spinRot_def easeOutQuint_1)
qed

text \<open>
  Claim C10. During a planned spin the rotation of every frame lies between the start
  rotation and the target rotation, a later frame never has a smaller rotation than an
  earlier one, and a frame at or after the start time plus the duration has the target
  rotation.
\<close>

theorem spin_rotation_frames:
  assumes "0 \<le> uLand" "uLand < 1" "0 \<le> uExtra" "uExtra < 1" "0 \<le> uJitter" "uJitter < 1"
    and "p = planSpin index n cur uLand uExtra uJitter"
  shows "cur \<le> spinRot cur (targetRotation p) tStart (durationMs p) now
    \<and> spinRot cur (targetRotation p) tStart (durationMs p) now \<le> targetRotation p
    \<and> (now \<le> now' \<longrightarrow>
          spinRot cur (targetRotation p) tStart (durationMs p) now
            \<le> spinRot cur (targetRotation p) tStart (durationMs p) now')
    \<and> (tStart + durationMs p \<le> now \<longrightarrow>
          spinRot cur (targetRotation p) tStart (durationMs p) now = targetRotation p)"
proof -
  have "cur + 4 * (2 * pi) \<le> targetRotation p"
    using planSpin_facts [OF assms(1-4)] assms(7) by blast
  then have le: "cur \<le> targetRotation p"
    using pi_gt_zero by linarith
  have d: "0 < durationMs p"
    using planSpin_duration_pos [OF assms(3,4,5)] assms(7) by simp
  show ?thesis
    using spinRot_bounds [OF le] spinRot_mono [OF le d] spinRot_final [OF d] by blast
qed

theorem spin_rotation_frames_witness:
  "(0::real) \<le> 1/2 \<and> (1/2::real) < 1
   \<and> 0 \<le> spinRot 0 (targetRotation (planSpin 2 4 0 (1/2) (1/2) (1/2))) 0
              (durationMs (planSpin 2 4 0 (1/2) (1/2) (1/2))) 100
   \<and> spinRot 0 (targetRotation (planSpin 2 4 0 (1/2) (1/2) (1/2))) 0
              (durationMs (planSpin 2 4 0 (1/2) (1/2) (1/2))) 100
        \<le> spinRot 0 (targetRotation (planSpin 2 4 0 (1/2) (1/2) (1/2))) 0
              (durationMs (planSpin 2 4 0 (1/2) (1/2) (1/2))) 200"
  using spin_rotation_frames [where uLand = "1/2" and uExtra = "1/2" and uJitter = "1/2"
      and index = 2 and n = 4 and cur = 0 and tStart = 0 and now = 100 and now' = 200
      and p = "planSpin 2 4 0 (1/2) (1/2) (1/2)"]
  by simp

subsection \<open>Reflow\<close>

text \<open>
  Claim C4, as the code has it. The reflow effect starts the blend animation when the
  item count changed, the old count exceeds 1 and the new count exceeds 0, and then
  leaves the active layout to the animation; in every other case it starts no animation
  and replaces the active layout by the equal partition of the new items at once.
\<close>

theorem reflowEffect_cases:
  "(length (prevItemsRef s) \<noteq> length (items s) \<and> 1 < length (prevItemsRef s) \<and> 0 < length (items s)
      \<longrightarrow> reflowFrame (reflowEffect now s) =
            Some \<lparr>rf_from = buildEqualRanges (prevItemsRef s), rf_to = buildEqualRanges (items s),
                  rf_next = items s, rf_startTime = now\<rparr>
          \<and> activeRangesRef (reflowEffect now s) = activeRangesRef s)
   \<and> (\<not> (length (prevItemsRef s) \<noteq> length (items s) \<and> 1 < length (prevItemsRef s) \<and> 0 < length (items s))
      \<longrightarrow> reflowFrame (reflowEffect now s) = reflowFrame s
          \<and> activeRangesRef (reflowEffect now s) = buildEqualRanges (items s))
   \<and> prevItemsRef (reflowEffect now s) = items s"
  by (simp add: reflowEffect_def Let_def)

theorem reflowEffect_cases_witness:
  "reflowFrame (reflowEffect 7
      ((initWheel [\<lparr>value = ''a'', weight = 1\<rparr>, \<lparr>value = ''b'', weight = 1\<rparr>,
                   \<lparr>value = ''c'', weight = 1\<rparr>] False False)
         \<lparr>items := [\<lparr>value = ''a'', weight = 1\<rparr>, \<lparr>value = ''b'', weight = 1\<rparr>]\<rparr>))
    = Some \<lparr>rf_from = buildEqualRanges [\<lparr>value = ''a'', weight = 1\<rparr>, \<lparr>value = ''b'', weight = 1\<rparr>,
                   \<lparr>value = ''c'', weight = 1\<rparr>],
            rf_to = buildEqualRanges [\<lparr>value = ''a'', weight = 1\<rparr>, \<lparr>value = ''b'', weight = 1\<rparr>],
            rf_next = [\<lparr>value = ''a'', weight = 1\<rparr>, \<lparr>value = ''b'', weight = 1\<rparr>],
            rf_startTime = 7\<rparr>
   \<and> reflowFrame (reflowEffect 7
      ((initWheel [\<lparr>value = ''a'', weight = 1\<rparr>, \<lparr>value = ''b'', weight = 1\<rparr>] False False)
         \<lparr>items := [\<lparr>value = ''a'', weight = 2\<rparr>, \<lparr>value = ''b'', weight = 1\<rparr>]\<rparr>)) = None"
  using reflowEffect_cases [of
      "(initWheel [\<lparr>value = ''a'', weight = 1\<rparr>, \<lparr>value = ''b'', weight = 1\<rparr>,
                   \<lparr>value = ''c'', weight = 1\<rparr>] False False)
         \<lparr>items := [\<lparr>value = ''a'', weight = 1\<rparr>, \<lparr>value = ''b'', weight = 1\<rparr>]\<rparr>" 7]
    reflowEffect_cases [of
      "(initWheel [\<lparr>value = ''a'', weight = 1\<rparr>, \<lparr>value = ''b'', weight = 1\<rparr>] False False)
         \<lparr>items := [\<lparr>value = ''a'', weight = 2\<rparr>, \<lparr>value = ''b'', weight = 1\<rparr>]\<rparr>" 7]
  by (simp add: initWheel_def)

text \<open>
  The new count need not exceed 1: going from two items to one starts the animation.
\<close>

theorem reflow_starts_for_single_item:
  "reflowFrame ((initWheel [\<lparr>value = ''a'', weight = 1\<rparr>, \<lparr>value = ''b'', weight = 1\<rparr>] False False)
                  \<lparr>items := [\<lparr>value = ''a'', weight = 1\<rparr>]\<rparr>) = None
   \<and> reflowFrame (reflowEffect 0
        ((initWheel [\<lparr>value = ''a'', weight = 1\<rparr>, \<lparr>value = ''b'', weight = 1\<rparr>] False False)
           \<lparr>items := [\<lparr>value = ''a'', weight = 1\<rparr>]\<rparr>)) \<noteq> None
   \<and> \<not> 1 < length (items ((initWheel [\<lparr>value = ''a'', weight = 1\<rparr>, \<lparr>value = ''b'', weight = 1\<rparr>] False False)
                  \<lparr>items := [\<lparr>value = ''a'', weight = 1\<rparr>]\<rparr>))"
  by (simp add: reflowEffect_def initWheel_def Let_def)

subsection \<open>Pop and removal\<close>

lemma itemsEffect_pop:
  "itemsEffect s = Inr s' \<Longrightarrow>
     removingRef s' = removingRef s \<and> popFrame s' = popFrame s \<and> onRemoveCalls s' = onRemoveCalls s
     \<and> removeSelectedRequested s' = removeSelectedRequested s \<and> lastRemoveReqRef s' = lastRemoveReqRef s"
  by (auto simp: itemsEffect_def split: sum.splits option.splits if_splits)

lemma reflowEffect_pop:
  "removingRef (reflowEffect now s) = removingRef s \<and> popFrame (reflowEffect now s) = popFrame s
   \<and> onRemoveCalls (reflowEffect now s) = onRemoveCalls s
   \<and> removeSelectedRequested (reflowEffect now s) = removeSelectedRequested s
   \<and> lastRemoveReqRef (reflowEffect now s) = lastRemoveReqRef s"
  by (simp add: reflowEffect_def Let_def)

lemma reflowStep_pop:
  "removingRef (reflowStep now s) = removingRef s \<and> popFrame (reflowStep now s) = popFrame s
   \<and> onRemoveCalls (reflowStep now s) = onRemoveCalls s
   \<and> removeSelectedRequested (reflowStep now s) = removeSelectedRequested s
   \<and> lastRemoveReqRef (reflowStep now s) = lastRemoveReqRef s"
  by (simp add: reflowStep_def Let_def split: option.splits)

lemma spin_pop:
  "removingRef (spin a b c d now s) = removingRef s \<and> popFrame (spin a b c d now s) = popFrame s
   \<and> onRemoveCalls (spin a b c d now s) = onRemoveCalls s
   \<and> removeSelectedRequested (spin a b c d now s) = removeSelectedRequested s
   \<and> lastRemoveReqRef (spin a b c d now s) = lastRemoveReqRef s"
  by (simp add: spin_def Let_def split: option.splits)

lemma spinStep_pop:
  "removingRef (spinStep now s) = removingRef s \<and> popFrame (spinStep now s) = popFrame s
   \<and> onRemoveCalls (spinStep now s) = onRemoveCalls s
   \<and> removeSelectedRequested (spinStep now s) = removeSelectedRequested s
   \<and> lastRemoveReqRef (spinStep now s) = lastRemoveReqRef s"
  by (simp add: spinStep_def Let_def split: option.splits)

lemma removalEffect_while_removing:
  "removingRef s \<Longrightarrow>
     removingRef (removalEffect now s) \<and> popFrame (removalEffect now s) = popFrame s \<and>
     onRemoveCalls (removalEffect now s) = onRemoveCalls s"
  by (simp add: removalEffect_def Let_def split: option.splits)

lemma removalEffect_accept:
  assumes "removeSelectedRequested s" "lastRemoveReqRef s \<noteq> Some True" "\<not> spinning s"
    "\<not> isDisabled s" "\<not> removingRef s" "selectedIndexRef s = Some idx" "0 \<le> idx"
    "idx < int (length (items s))"
  shows "removalEffect now s =
     s\<lparr>lastRemoveReqRef := Some True, removingRef := True,
       popFrame := Some \<lparr>pop_idx = idx, pop_valueToRemove = value (items s ! nat idx),
                         pop_startRotation = rotationRef s, pop_startTime = now\<rparr>\<rparr>"
  using assms by (simp add: removalEffect_def Let_def)

lemma popStep_early:
  "popFrame s = Some a \<Longrightarrow> now < pop_startTime a + 520 \<Longrightarrow> popStep now s = s"
proof -
  assume a: "popFrame s = Some a" and n: "now < pop_startTime a + 520"
  have "(now - pop_startTime a) / 520 < 1" using n by simp
  then have "clamp01 ((now - pop_startTime a) / 520) < 1"
    by (simp add: clamp01_def)
  then show ?thesis using a by (simp add: popStep_def)
qed

lemma popStep_final:
  assumes "popFrame s = Some a" "pop_startTime a + 520 \<le> now"
  shows "popStep now s = s\<lparr>removingRef := False, selectedIndexRef := None,
            onRemoveCalls := onRemoveCalls s @ [pop_valueToRemove a], popFrame := None\<rparr>"
proof -
  have "1 \<le> (now - pop_startTime a) / 520" using assms(2) by simp
  then have "clamp01 ((now - pop_startTime a) / 520) = 1" by (rule clamp01_ge1)
  then show ?thesis using assms(1) by (simp add: popStep_def)
qed

lemma popStep_idle: "popFrame s = None \<Longrightarrow> popStep now s = s"
  by (simp add: popStep_def)

lemma step_while_popping:
  assumes "removingRef s" "popFrame s = Some a" "onRemoveCalls s = L"
    and "\<forall>now. e = PopFrame now \<longrightarrow> now < pop_startTime a + 520"
    and "step e s = Inr s'"
  shows "removingRef s' \<and> popFrame s' = Some a \<and> onRemoveCalls s' = L"
proof (cases e)
  case (SetItems its now)
  then obtain s1 where s1: "itemsEffect (s\<lparr>items := its\<rparr>) = Inr s1" "s' = reflowEffect now s1"
    using assms(5) by (auto split: sum.splits)
  show ?thesis using itemsEffect_pop [OF s1(1)] reflowEffect_pop [of now s1] assms(1-3) s1(2)
    by simp
next
  case (SetDisabled b)
  then show ?thesis using assms by auto
next
  case (SetRemoveSelectedRequested b now)
  show ?thesis
  proof (cases "b = removeSelectedRequested s")
    case True
    then show ?thesis using assms SetRemoveSelectedRequested by simp
  next
    case False
    then have "s' = removalEffect now (s\<lparr>removeSelectedRequested := b\<rparr>)"
      using assms(5) SetRemoveSelectedRequested by simp
    then show ?thesis
      using removalEffect_while_removing [of "s\<lparr>removeSelectedRequested := b\<rparr>" now] assms(1-3)
      by simp
  qed
next
  case (ClickSpin a b c d now)
  then show ?thesis using assms(1,2,3,5) spin_pop [of a b c d now s] by auto
next
  case (SpinFrame now)
  then show ?thesis using assms(1,2,3,5) spinStep_pop [of now s] by auto
next
  case (PopFrame now)
  then have "now < pop_startTime a + 520" using assms(4) by simp
  then have "popStep now s = s" using assms(2) by (rule popStep_early [rotated])
  then show ?thesis using assms PopFrame by simp
next
  case (ReflowFrame now)
  then show ?thesis using assms(1,2,3,5) reflowStep_pop [of now s] by auto
qed

lemma run_while_popping:
  assumes "removingRef s" "popFrame s = Some a" "onRemoveCalls s = L"
    and "\<forall>e\<in>set evs. \<forall>now. e = PopFrame now \<longrightarrow> now < pop_startTime a + 520"
    and "run evs s = Inr s'"
  shows "removingRef s' \<and> popFrame s' = Some a \<and> onRemoveCalls s' = L"
  using assms
proof (induction evs arbitrary: s)
  case Nil
  then show ?case by simp
next
  case (Cons e evs)
  from Cons.prems(5) obtain s1 where s1: "step e s = Inr s1" "run evs s1 = Inr s'"
    by (auto split: sum.splits)
  have "removingRef s1 \<and> popFrame s1 = Some a \<and> onRemoveCalls s1 = L"
    using step_while_popping [OF Cons.prems(1-3) _ s1(1)] Cons.prems(4) by simp
  then show ?case using Cons.IH [OF _ _ _ _ s1(2)] Cons.prems(4) by simp
qed

text \<open>
  Claim C3. When a rising edge of \<open>removeSelectedRequested\<close> is accepted with a valid
  recorded selection, a pop animation for the recorded value starts and \<open>onRemove\<close> is not
  called yet. Whatever happens before the animation completes, further edges of the
  request included, the animation stays the same and \<open>onRemove\<close> is still not called. The
  frame that completes the animation calls \<open>onRemove\<close> once with the recorded value,
  clears the selection and ends the removal; after it no pop frame is pending.
\<close>

theorem pop_cycle_removes_once:
  assumes "\<not> removeSelectedRequested s" "lastRemoveReqRef s \<noteq> Some True"
    and "\<not> spinning s" "\<not> isDisabled s" "\<not> removingRef s"
    and "selectedIndexRef s = Some idx" "0 \<le> idx" "idx < int (length (items s))"
    and "\<forall>e\<in>set evs. \<forall>now. e = PopFrame now \<longrightarrow> now < tStart + 520"
    and "run evs (removalEffect tStart (s\<lparr>removeSelectedRequested := True\<rparr>)) = Inr sMid"
    and "tStart + 520 \<le> tEnd"
  shows "step (SetRemoveSelectedRequested True tStart) s
           = Inr (removalEffect tStart (s\<lparr>removeSelectedRequested := True\<rparr>))
    \<and> popFrame (removalEffect tStart (s\<lparr>removeSelectedRequested := True\<rparr>))
           = Some \<lparr>pop_idx = idx, pop_valueToRemove = value (items s ! nat idx),
                   pop_startRotation = rotationRef s, pop_startTime = tStart\<rparr>
    \<and> onRemoveCalls (removalEffect tStart (s\<lparr>removeSelectedRequested := True\<rparr>)) = onRemoveCalls s
    \<and> removingRef sMid \<and> popFrame sMid = popFrame (removalEffect tStart (s\<lparr>removeSelectedRequested := True\<rparr>))
    \<and> onRemoveCalls sMid = onRemoveCalls s
    \<and> step (PopFrame tEnd) sMid = Inr (popStep tEnd sMid)
    \<and> onRemoveCalls (popStep tEnd sMid) = onRemoveCalls s @ [value (items s ! nat idx)]
    \<and> selectedIndexRef (popStep tEnd sMid) = None
    \<and> \<not> removingRef (popStep tEnd sMid)
    \<and> popFrame (popStep tEnd sMid) = None
    \<and> (\<forall>now. popStep now (popStep tEnd sMid) = popStep tEnd sMid)"
proof -
  define a where "a = \<lparr>pop_idx = idx, pop_valueToRemove = value (items s ! nat idx),
                   pop_startRotation = rotationRef s, pop_startTime = tStart\<rparr>"
  define s1 where "s1 = removalEffect tStart (s\<lparr>removeSelectedRequested := True\<rparr>)"
  have s1: "s1 = s\<lparr>removeSelectedRequested := True, lastRemoveReqRef := Some True,
                    removingRef := True, popFrame := Some a\<rparr>"
    unfolding s1_def a_def
    using removalEffect_accept [of "s\<lparr>removeSelectedRequested := True\<rparr>" idx tStart] assms(2-8)
    by simp
  have st: "step (SetRemoveSelectedRequested True tStart) s = Inr s1"
    using assms(1) by (simp add: s1_def)
  have p1: "popFrame s1 = Some a" "removingRef s1" "onRemoveCalls s1 = onRemoveCalls s"
    by (simp_all add: s1)
  have ev: "\<forall>e\<in>set evs. \<forall>now. e = PopFrame now \<longrightarrow> now < pop_startTime a + 520"
    using assms(9) by (simp add: a_def)
  have r: "run evs s1 = Inr sMid" using assms(10) by (simp add: s1_def)
  have p2: "removingRef sMid" "popFrame sMid = Some a" "onRemoveCalls sMid = onRemoveCalls s"
    using run_while_popping [OF p1(2) p1(1) p1(3) ev r] by simp_all
  have "pop_startTime a + 520 \<le> tEnd" using assms(11) by (simp add: a_def)
  from popStep_final [OF p2(2) this]
  have s3: "popStep tEnd sMid = sMid\<lparr>removingRef := False, selectedIndexRef := None,
            onRemoveCalls := onRemoveCalls sMid @ [pop_valueToRemove a], popFrame := None\<rparr>" .
  have p3: "onRemoveCalls (popStep tEnd sMid) = onRemoveCalls s @ [value (items s ! nat idx)]"
    "selectedIndexRef (popStep tEnd sMid) = None" "\<not> removingRef (popStep tEnd sMid)"
    "popFrame (popStep tEnd sMid) = None"
    by (simp_all add: s3 p2(3) a_def)
  have p4: "\<forall>now. popStep now (popStep tEnd sMid) = popStep tEnd sMid"
    using popStep_idle [OF p3(4)] by simp
  show ?thesis
    using st p1 p2 p3 p4 unfolding s1_def [symmetric] a_def [symmetric] by simp
qed

theorem pop_cycle_removes_once_witness:
  "\<exists>s2. run [PopFrame 100, SetRemoveSelectedRequested False 150,
              SetRemoveSelectedRequested True 200, SetDisabled True, PopFrame 300]
         (removalEffect 0
            ((initWheel [\<lparr>value = ''a'', weight = 1\<rparr>, \<lparr>value = ''b'', weight = 3\<rparr>] False False)
               \<lparr>selectedIndexRef := Some 1, lastRemoveReqRef := Some False,
                 removeSelectedRequested := True\<rparr>)) = Inr s2
       \<and> onRemoveCalls s2 = []
       \<and> onRemoveCalls (popStep 520 s2) = [''b'']
       \<and> selectedIndexRef (popStep 520 s2) = None"
proof -
  define s where "s = (initWheel [\<lparr>value = ''a'', weight = 1\<rparr>, \<lparr>value = ''b'', weight = 3\<rparr>] False False)
               \<lparr>selectedIndexRef := Some 1, lastRemoveReqRef := Some False\<rparr>"
  define evs where "evs = [PopFrame 100, SetRemoveSelectedRequested False 150,
              SetRemoveSelectedRequested True 200, SetDisabled True, PopFrame 300]"
  have ev: "\<forall>e\<in>set evs. \<forall>now. e = PopFrame now \<longrightarrow> now < 0 + 520"
    by (simp add: evs_def)
  have "\<exists>s2. run evs (removalEffect 0 (s\<lparr>removeSelectedRequested := True\<rparr>)) = Inr s2"
    by (simp add: evs_def s_def initWheel_def removalEffect_def popStep_def clamp01_def Let_def)
  then obtain s2 where r: "run evs (removalEffect 0 (s\<lparr>removeSelectedRequested := True\<rparr>)) = Inr s2"
    by blast
  have "onRemoveCalls s2 = onRemoveCalls s
     \<and> onRemoveCalls (popStep 520 s2) = onRemoveCalls s @ [value (items s ! nat 1)]
     \<and> selectedIndexRef (popStep 520 s2) = None"
    using pop_cycle_removes_once [where s = s and idx = 1 and evs = evs and tStart = 0
        and sMid = s2 and tEnd = 520, OF _ _ _ _ _ _ _ _ ev r]
    by (simp add: s_def initWheel_def)
  then have "onRemoveCalls s2 = [] \<and> onRemoveCalls (popStep 520 s2) = [''b'']
     \<and> selectedIndexRef (popStep 520 s2) = None"
    by (simp add: s_def initWheel_def)
  with r show ?thesis unfolding s_def evs_def by auto
qed

lemma step_idle_pop:
  assumes "popFrame s = None" "onRemoveCalls s = L"
    and "\<forall>b t. e \<noteq> SetRemoveSelectedRequested b t"
    and "step e s = Inr s'"
  shows "popFrame s' = None \<and> onRemoveCalls s' = L"
proof (cases e)
  case (SetItems its now)
  then obtain s1 where s1: "itemsEffect (s\<lparr>items := its\<rparr>) = Inr s1" "s' = reflowEffect now s1"
    using assms(4) by (auto split: sum.splits)
  show ?thesis using itemsEffect_pop [OF s1(1)] reflowEffect_pop [of now s1] assms(1,2) s1(2)
    by simp
next
  case (SetDisabled b)
  then show ?thesis using assms by auto
next
  case (SetRemoveSelectedRequested b now)
  then show ?thesis using assms(3) by simp
next
  case (ClickSpin a b c d now)
  then show ?thesis using assms(1,2,4) spin_pop [of a b c d now s] by auto
next
  case (SpinFrame now)
  then show ?thesis using assms(1,2,4) spinStep_pop [of now s] by auto
next
  case (PopFrame now)
  then show ?thesis using assms(1,2,4) popStep_idle [of s now] by auto
next
  case (ReflowFrame now)
  then show ?thesis using assms(1,2,4) reflowStep_pop [of now s] by auto
qed

lemma run_idle_pop:
  assumes "popFrame s = None" "onRemoveCalls s = L"
    and "\<forall>e\<in>set evs. \<forall>b t. e \<noteq> SetRemoveSelectedRequested b t"
    and "run evs s = Inr s'"
  shows "popFrame s' = None \<and> onRemoveCalls s' = L"
  using assms
proof (induction evs arbitrary: s)
  case Nil
  then show ?case by simp
next
  case (Cons e evs)
  from Cons.prems(4) obtain s1 where s1: "step e s = Inr s1" "run evs s1 = Inr s'"
    by (auto split: sum.splits)
  have "popFrame s1 = None \<and> onRemoveCalls s1 = L"
    using step_idle_pop [OF Cons.prems(1,2) _ s1(1)] Cons.prems(3) by simp
  then show ?case using Cons.IH [OF _ _ _ s1(2)] Cons.prems(3) by simp
qed

lemma removalEffect_disabled:
  assumes "isDisabled s" "removeSelectedRequested s"
  shows "removalEffect now s = s\<lparr>lastRemoveReqRef := Some True\<rparr>"
proof (cases "lastRemoveReqRef s = Some True")
  case True
  then have "s\<lparr>lastRemoveReqRef := Some True\<rparr> = s" by simp
  then show ?thesis using assms True by (simp add: removalEffect_def)
next
  case False
  then show ?thesis using assms by (simp add: removalEffect_def Let_def)
qed

text \<open>
  Claim C9. While \<open>isDisabled\<close> is true, \<open>spin\<close> changes nothing, and a rising edge of
  \<open>removeSelectedRequested\<close> is only noted in \<open>lastRemoveReqRef\<close>: no pop animation
  starts, the selection and the rotation stay as they are, and with no removal in
  progress \<open>onRemove\<close> is not called afterwards either, as long as no new edge arrives.
\<close>

theorem disabled_rejects:
  assumes "isDisabled s"
  shows "spin uPick uLand uExtra uJitter now s = s
    \<and> (\<not> removeSelectedRequested s \<longrightarrow>
          step (SetRemoveSelectedRequested True now) s
            = Inr (s\<lparr>removeSelectedRequested := True, lastRemoveReqRef := Some True\<rparr>))
    \<and> (\<not> removeSelectedRequested s \<and> popFrame s = None
          \<and> (\<forall>e\<in>set evs. \<forall>b t. e \<noteq> SetRemoveSelectedRequested b t)
          \<and> run evs (s\<lparr>removeSelectedRequested := True, lastRemoveReqRef := Some True\<rparr>) = Inr sLater
        \<longrightarrow> onRemoveCalls sLater = onRemoveCalls s \<and> popFrame sLater = None)"
proof -
  have a: "spin uPick uLand uExtra uJitter now s = s"
    using assms by (simp add: spin_def)
  have b: "step (SetRemoveSelectedRequested True now) s
            = Inr (s\<lparr>removeSelectedRequested := True, lastRemoveReqRef := Some True\<rparr>)"
    if "\<not> removeSelectedRequested s"
    using that removalEffect_disabled [of "s\<lparr>removeSelectedRequested := True\<rparr>" now] assms
    by simp
  have c: "onRemoveCalls sLater = onRemoveCalls s \<and> popFrame sLater = None"
    if "popFrame s = None" "\<forall>e\<in>set evs. \<forall>b t. e \<noteq> SetRemoveSelectedRequested b t"
      "run evs (s\<lparr>removeSelectedRequested := True, lastRemoveReqRef := Some True\<rparr>) = Inr sLater"
    using run_idle_pop [OF _ _ that(2) that(3), of "onRemoveCalls s"] that(1) by simp
  from a b c show ?thesis by blast
qed

theorem disabled_rejects_witness:
  "isDisabled ((initWheel [\<lparr>value = ''a'', weight = 1\<rparr>, \<lparr>value = ''b'', weight = 3\<rparr>] True False)
               \<lparr>selectedIndexRef := Some 1, lastRemoveReqRef := Some False\<rparr>)
   \<and> spin 0 0 0 0 0 ((initWheel [\<lparr>value = ''a'', weight = 1\<rparr>, \<lparr>value = ''b'', weight = 3\<rparr>] True False)
               \<lparr>selectedIndexRef := Some 1, lastRemoveReqRef := Some False\<rparr>)
       = (initWheel [\<lparr>value = ''a'', weight = 1\<rparr>, \<lparr>value = ''b'', weight = 3\<rparr>] True False)
               \<lparr>selectedIndexRef := Some 1, lastRemoveReqRef := Some False\<rparr>
   \<and> step (SetRemoveSelectedRequested True 5)
        ((initWheel [\<lparr>value = ''a'', weight = 1\<rparr>, \<lparr>value = ''b'', weight = 3\<rparr>] True False)
               \<lparr>selectedIndexRef := Some 1, lastRemoveReqRef := Some False\<rparr>)
       = Inr ((initWheel [\<lparr>value = ''a'', weight = 1\<rparr>, \<lparr>value = ''b'', weight = 3\<rparr>] True False)
               \<lparr>selectedIndexRef := Some 1, lastRemoveReqRef := Some True,
                 removeSelectedRequested := True\<rparr>)
   \<and> (\<exists>s2. run [SetDisabled False, PopFrame 1000]
              ((initWheel [\<lparr>value = ''a'', weight = 1\<rparr>, \<lparr>value = ''b'', weight = 3\<rparr>] True False)
               \<lparr>selectedIndexRef := Some 1, lastRemoveReqRef := Some True,
                 removeSelectedRequested := True\<rparr>) = Inr s2
           \<and> onRemoveCalls s2 = [] \<and> popFrame s2 = None)"
proof -
  define s where "s = (initWheel [\<lparr>value = ''a'', weight = 1\<rparr>, \<lparr>value = ''b'', weight = 3\<rparr>] True False)
               \<lparr>selectedIndexRef := Some 1, lastRemoveReqRef := Some False\<rparr>"
  define s1 where "s1 = s\<lparr>removeSelectedRequested := True, lastRemoveReqRef := Some True\<rparr>"
  define evs where "evs = [SetDisabled False, PopFrame 1000]"
  have d: "isDisabled s" by (simp add: s_def initWheel_def)
  have nr: "\<not> removeSelectedRequested s" "popFrame s = None" "onRemoveCalls s = []"
    by (simp_all add: s_def initWheel_def)
  have ev: "\<forall>e\<in>set evs. \<forall>b t. e \<noteq> SetRemoveSelectedRequested b t"
    by (simp add: evs_def)
  have "\<exists>s2. run evs s1 = Inr s2" by (simp add: evs_def)
  then obtain s2 where r: "run evs s1 = Inr s2" by blast
  note th = disabled_rejects [OF d, where uPick = 0 and uLand = 0 and uExtra = 0 and uJitter = 0
      and now = 0 and evs = evs and sLater = s2]
  note th5 = disabled_rejects [OF d, where now = 5]
  have a: "spin 0 0 0 0 0 s = s" using th by blast
  have b: "step (SetRemoveSelectedRequested True 5) s = Inr s1"
    using th5 nr(1) unfolding s1_def by blast
  have c: "onRemoveCalls s2 = [] \<and> popFrame s2 = None"
    using th nr ev r unfolding s1_def by simp
  have e: "s1 = (initWheel [\<lparr>value = ''a'', weight = 1\<rparr>, \<lparr>value = ''b'', weight = 3\<rparr>] True False)
               \<lparr>selectedIndexRef := Some 1, lastRemoveReqRef := Some True,
                 removeSelectedRequested := True\<rparr>"
    by (simp add: s1_def s_def initWheel_def)
  show ?thesis using d a b c r unfolding e [symmetric] s_def [symmetric] evs_def [symmetric]
    by blast
qed

end
